theory Spec2Isabelle
  imports Complex_Main "HOL-Library.Word" "HOL-Library.Log_Nat"
begin

section \<open>The environment of bench.c\<close>

text \<open>
  bench.c talks to the operating system through three calls: \<open>clock_gettime\<close>,
  \<open>fork\<close> and \<open>waitpid\<close>. The model follows the parent process. The results of
  its system calls are the input: a \<open>world\<close> is the list of the results that the
  calls still to come will return, in order, and each call takes the head of the list.
  What a function has done is therefore visible as the prefix it has taken away.

  \<^item> A reading of the monotonic clock is a real number of seconds (the source computes
    \<open>tv_sec + tv_nsec / 1e9\<close> in a \<open>double\<close>; the reading is this value), or the
    call fails.
  \<^item> \<open>fork\<close> fails, or creates a child. The child runs lines 65 to 74: \<open>execvp\<close>
    either fails, and the child leaves with \<open>_exit(127)\<close>, or replaces the image, and
    the command ends with a status of its own.
  \<^item> \<open>waitpid\<close> is interrupted (\<open>EINTR\<close>), fails with another error, or reaps
    the child and yields its status.
  \<^item> A wait status, decoded: a normal exit with an 8-bit code, or death by a signal.
\<close>

datatype wstatus = Exited "8 word" | Signaled nat

datatype child = ExecFails | Runs wstatus

datatype wait_result = Interrupted | WaitError | Reaped

datatype event = Clock "real option" | Fork "child option" | Waitpid wait_result

type_synonym world = "event list"

text \<open>
  A function of the program returns a value and the rest of the world (\<open>Ret\<close>), ends
  the whole process with \<open>exit(status)\<close> (\<open>Halt\<close>), or asks for a system call that
  the world does not describe (\<open>Stuck\<close>: the script is too short or of another shape,
  which includes a child that is never reaped and a timed loop that never ends).
\<close>

datatype 'a step = Ret 'a world | Halt int world | Stuck

definition EXIT_SUCCESS :: int where
  "EXIT_SUCCESS = 0"

definition EXIT_FAILURE :: int where
  "EXIT_FAILURE = 1"

text \<open>The macros of \<open>sys/wait.h\<close> on a decoded status.\<close>

fun WIFEXITED :: "wstatus \<Rightarrow> bool" where
  "WIFEXITED (Exited c) = True"
| "WIFEXITED (Signaled s) = False"

fun WEXITSTATUS :: "wstatus \<Rightarrow> 8 word" where
  "WEXITSTATUS (Exited c) = c"
| "WEXITSTATUS (Signaled s) = 0"

section \<open>bench.c: now_monotonic and run_once\<close>

text \<open>\<open>now_monotonic\<close> (lines 37 to 46): a failing clock ends the program.\<close>

fun now_monotonic :: "world \<Rightarrow> real step" where
  "now_monotonic (Clock (Some t) # w) = Ret t w"
| "now_monotonic (Clock None # w) = Halt EXIT_FAILURE w"
| "now_monotonic _ = Stuck"

text \<open>
  The child's branch of \<open>run_once\<close> (lines 65 to 74), as the status that the parent
  will reap.
\<close>

fun child_branch :: "child \<Rightarrow> wstatus" where
  "child_branch ExecFails = Exited 127"
| "child_branch (Runs st) = st"

text \<open>
  The \<open>for (;;)\<close> loop around \<open>waitpid\<close> (lines 81 to 89): retry on \<open>EINTR\<close>,
  give up on another error (\<open>None\<close>), leave with the status once the child is reaped.
\<close>

fun wait_loop :: "child \<Rightarrow> world \<Rightarrow> wstatus option step" where
  "wait_loop ch (Waitpid Interrupted # w) = wait_loop ch w"
| "wait_loop ch (Waitpid WaitError # w) = Ret None w"
| "wait_loop ch (Waitpid Reaped # w) = Ret (Some (child_branch ch)) w"
| "wait_loop ch _ = Stuck"

text \<open>
  \<open>run_once\<close> (lines 56 to 103). The result is the return code and what was written
  through \<open>secs_out\<close>: \<open>None\<close> on the two paths that return \<open>-1\<close> before line 92.
  The command itself (\<open>cmd_argv\<close>) is read by the child only, whose behaviour is part
  of the world.
\<close>

definition run_once :: "world \<Rightarrow> (int \<times> real option) step" where
  "run_once w =
     (case now_monotonic w of
        Stuck \<Rightarrow> Stuck
      | Halt c w1 \<Rightarrow> Halt c w1
      | Ret t0 w1 \<Rightarrow>
          (case w1 of
             Fork None # w2 \<Rightarrow> Ret (- 1, None) w2
           | Fork (Some ch) # w2 \<Rightarrow>
               (case wait_loop ch w2 of
                  Stuck \<Rightarrow> Stuck
                | Halt c w3 \<Rightarrow> Halt c w3
                | Ret None w3 \<Rightarrow> Ret (- 1, None) w3
                | Ret (Some status) w3 \<Rightarrow>
                    (case now_monotonic w3 of
                       Stuck \<Rightarrow> Stuck
                     | Halt c w4 \<Rightarrow> Halt c w4
                     | Ret t1 w4 \<Rightarrow>
                         Ret (if WIFEXITED status \<and> WEXITSTATUS status = 0 then 0 else 1,
                              Some (t1 - t0)) w4))
           | _ \<Rightarrow> Stuck))"

text \<open>
  Every call that returns has taken at least one result from the world; the loops of
  \<open>main\<close> terminate on this measure.
\<close>

lemma now_monotonic_shrinks:
  "now_monotonic w = Ret t w' \<Longrightarrow> length w' < length w"
  by (cases w rule: now_monotonic.cases) auto

lemma wait_loop_shrinks:
  "wait_loop ch w = Ret r w' \<Longrightarrow> length w' < length w"
  by (induction ch w rule: wait_loop.induct) auto

lemma run_once_shrinks:
  "run_once w = Ret r w' \<Longrightarrow> length w' < length w"
  unfolding run_once_def
  by (auto split: step.splits list.splits event.splits option.splits
      dest!: now_monotonic_shrinks wait_loop_shrinks)

section \<open>bench.c: main\<close>

text \<open>
  The command line, as \<open>getopt(argc, argv, "w:d:")\<close> delivers it: the options in
  order, \<open>-w\<close> with the value of \<open>atoi(optarg)\<close>, \<open>-d\<close> with the value of
  \<open>atof(optarg)\<close>, anything else (\<open>'?'\<close>) as \<open>OptOther\<close>; and the words from
  \<open>argv[optind]\<close> on, the command.

  The \<open>while\<close> loop of lines 114 to 138, with the two variables it assigns.
  \<open>None\<close> stands for its three \<open>return EXIT_FAILURE\<close>.
\<close>

datatype opt = OptW int | OptD real | OptOther

fun getopt_loop :: "opt list \<Rightarrow> int \<Rightarrow> real \<Rightarrow> (int \<times> real) option" where
  "getopt_loop [] warmups duration = Some (warmups, duration)"
| "getopt_loop (OptW n # os) warmups duration =
     (if n < 0 then None else getopt_loop os n duration)"
| "getopt_loop (OptD x # os) warmups duration =
     (if x \<le> 0 then None else getopt_loop os warmups x)"
| "getopt_loop (OptOther # os) warmups duration = None"

text \<open>The warmup loop (lines 152 to 155): the result of each run is dropped.\<close>

function warmup_loop :: "int \<Rightarrow> int \<Rightarrow> world \<Rightarrow> unit step" where
  "warmup_loop i warmups w =
     (if i < warmups then
        (case run_once w of
           Stuck \<Rightarrow> Stuck
         | Halt c w1 \<Rightarrow> Halt c w1
         | Ret ignored w1 \<Rightarrow> warmup_loop (i + 1) warmups w1)
      else Ret () w)"
  by pat_completeness auto
termination
  by (relation "measure (\<lambda>(i, warmups, w). nat (warmups - i))") auto

declare warmup_loop.simps [simp del]

text \<open>
  The statistics of lines 161 to 163. The two counters are \<open>long\<close> in the source and
  unbounded integers here: they count child processes and stay far below \<open>2^63\<close>.
\<close>

record stats =
  min_s :: real
  max_s :: real
  sum_s :: real
  runs :: int
  fails :: int

definition stats0 :: stats where
  "stats0 = \<lparr>min_s = 0, max_s = 0, sum_s = 0, runs = 0, fails = 0\<rparr>"

text \<open>
  The update of lines 174 to 186, for a run that returned \<open>rc\<close> and left \<open>secs\<close>.
  The sum is exact here; \<open>update_stats_double\<close> below rounds it as line 181 does.
\<close>

definition update_stats :: "stats \<Rightarrow> int \<Rightarrow> real \<Rightarrow> stats" where
  "update_stats st rc secs =
     \<lparr>min_s = (if runs st = 0 then secs else if secs < min_s st then secs else min_s st),
      max_s = (if runs st = 0 then secs else if secs > max_s st then secs else max_s st),
      sum_s = sum_s st + secs,
      runs = runs st + 1,
      fails = (if rc \<noteq> 0 then fails st + 1 else fails st)\<rparr>"

text \<open>
  Line 171 sets \<open>secs\<close> to \<open>0.0\<close> before the call, and \<open>run_once\<close> overwrites it
  only when it reaches line 92.
\<close>

fun secs_after :: "real option \<Rightarrow> real" where
  "secs_after None = 0"
| "secs_after (Some t) = t"

text \<open>The timed loop (lines 165 to 187).\<close>

function timed_loop :: "real \<Rightarrow> real \<Rightarrow> stats \<Rightarrow> world \<Rightarrow> stats step" where
  "timed_loop total_start duration st w =
     (case now_monotonic w of
        Stuck \<Rightarrow> Stuck
      | Halt c w1 \<Rightarrow> Halt c w1
      | Ret t w1 \<Rightarrow>
          (let elapsed = t - total_start in
           if elapsed \<ge> duration then Ret st w1
           else
             (case run_once w1 of
                Stuck \<Rightarrow> Stuck
              | Halt c w2 \<Rightarrow> Halt c w2
              | Ret r w2 \<Rightarrow>
                  timed_loop total_start duration
                    (update_stats st (fst r) (secs_after (snd r))) w2)))"
  by pat_completeness auto
termination
  by (relation "measure (\<lambda>(total_start, duration, st, w). length w)")
     (auto dest!: now_monotonic_shrinks run_once_shrinks)

declare timed_loop.simps [simp del]

text \<open>
  What lines 193 to 196 print, as values (the \<open>%.6f\<close> formatting is not modelled).
\<close>

record report =
  rep_min :: real
  rep_avg :: real
  rep_max :: real
  rep_total :: real
  rep_runs :: int
  rep_fails :: int
  rep_warmups :: int

text \<open>
  The end of a process: its exit status, the report if one was printed, and the system
  call results it left unused. \<open>Unscripted\<close> is \<open>Stuck\<close> at this level.
\<close>

datatype outcome = Exit int "report option" world | Unscripted

text \<open>
  Lines 158 to 199: the timed window and the report. The average is the exact quotient
  here; \<open>measurement_double\<close> below rounds it as line 190 does.
\<close>

definition measurement :: "int \<Rightarrow> real \<Rightarrow> world \<Rightarrow> outcome" where
  "measurement warmups duration w =
     (case now_monotonic w of
        Stuck \<Rightarrow> Unscripted
      | Halt c w1 \<Rightarrow> Exit c None w1
      | Ret total_start w1 \<Rightarrow>
          (case timed_loop total_start duration stats0 w1 of
             Stuck \<Rightarrow> Unscripted
           | Halt c w2 \<Rightarrow> Exit c None w2
           | Ret st w2 \<Rightarrow>
               (case now_monotonic w2 of
                  Stuck \<Rightarrow> Unscripted
                | Halt c w3 \<Rightarrow> Exit c None w3
                | Ret t w3 \<Rightarrow>
                    (let total_elapsed = t - total_start;
                         avg_s = (if runs st > 0 then sum_s st / of_int (runs st) else 0)
                     in Exit (if fails st > 0 then EXIT_FAILURE else EXIT_SUCCESS)
                          (Some \<lparr>rep_min = (if runs st \<noteq> 0 then min_s st else 0),
                                 rep_avg = (if runs st \<noteq> 0 then avg_s else 0),
                                 rep_max = (if runs st \<noteq> 0 then max_s st else 0),
                                 rep_total = total_elapsed,
                                 rep_runs = runs st,
                                 rep_fails = fails st,
                                 rep_warmups = warmups\<rparr>)
                          w3))))"

text \<open>
  \<open>main\<close> (lines 105 to 200): options, the command, the warmup runs, the measurement.
  \<open>cmd\<close> is \<open>argv[optind]\<close> and what follows; it is empty when \<open>optind >= argc\<close>.
\<close>

definition main :: "opt list \<Rightarrow> string list \<Rightarrow> world \<Rightarrow> outcome" where
  "main opts cmd w =
     (case getopt_loop opts 0 5 of
        None \<Rightarrow> Exit EXIT_FAILURE None w
      | Some (warmups, duration) \<Rightarrow>
          if cmd = [] then Exit EXIT_FAILURE None w
          else
            (case warmup_loop 0 warmups w of
               Stuck \<Rightarrow> Unscripted
             | Halt c w1 \<Rightarrow> Exit c None w1
             | Ret u w1 \<Rightarrow> measurement warmups duration w1))"

section \<open>repeat.c\<close>

text \<open>
  The command line of repeat.c, as \<open>getopt(argc, argv, "r:n")\<close> delivers it: \<open>-r\<close>
  with the value of \<open>atoi(optarg)\<close>, \<open>-n\<close>, or anything else. A string of C is the
  list of its characters before the terminating zero. The standard output is the string
  of the characters written so far.
\<close>

datatype ropt = OptR int | OptN | OptUnknown

text \<open>The option loop (lines 11 to 23); \<open>None\<close> stands for the \<open>return 1\<close> of line 21.\<close>

fun repeat_getopt_loop :: "ropt list \<Rightarrow> int \<Rightarrow> bool \<Rightarrow> (int \<times> bool) option" where
  "repeat_getopt_loop [] repeats no_newline = Some (repeats, no_newline)"
| "repeat_getopt_loop (OptR n # os) repeats no_newline = repeat_getopt_loop os n no_newline"
| "repeat_getopt_loop (OptN # os) repeats no_newline = repeat_getopt_loop os repeats True"
| "repeat_getopt_loop (OptUnknown # os) repeats no_newline = None"

text \<open>The inner loop (lines 34 to 36): one \<open>putchar\<close> for each character.\<close>

fun put_msg :: "string \<Rightarrow> string \<Rightarrow> string" where
  "put_msg [] out = out"
| "put_msg (c # p) out = put_msg p (out @ [c])"

text \<open>The outer loop (lines 33 to 40).\<close>

function print_loop :: "int \<Rightarrow> int \<Rightarrow> string \<Rightarrow> bool \<Rightarrow> string \<Rightarrow> string" where
  "print_loop i repeats msg no_newline out =
     (if i < repeats then
        print_loop (i + 1) repeats msg no_newline
          (let out1 = put_msg msg out
           in if \<not> no_newline then out1 @ [CHR 0x0A] else out1)
      else out)"
  by pat_completeness auto
termination
  by (relation "measure (\<lambda>(i, repeats, msg, no_newline, out). nat (repeats - i))") auto

declare print_loop.simps [simp del]

text \<open>
  \<open>main\<close> of repeat.c: the exit status and the standard output. \<open>args\<close> is
  \<open>argv[optind]\<close> and what follows.
\<close>

definition repeat_main :: "ropt list \<Rightarrow> string list \<Rightarrow> int \<times> string" where
  "repeat_main opts args =
     (case repeat_getopt_loop opts 1 False of
        None \<Rightarrow> (1, [])
      | Some (repeats, no_newline) \<Rightarrow>
          (case args of
             [] \<Rightarrow> (1, [])
           | msg # rest \<Rightarrow> (0, print_loop 0 repeats msg no_newline [])))"

text \<open>The values with which the option loop ends, read off the options.\<close>

fun repeat_count :: "ropt list \<Rightarrow> int \<Rightarrow> int" where
  "repeat_count [] r = r"
| "repeat_count (OptR n # os) r = repeat_count os n"
| "repeat_count (p # os) r = repeat_count os r"

section \<open>The statistics in binary64\<close>

text \<open>
  The sum of line 181 and the average of line 190 are computed in \<open>double\<close>: each
  operation yields the exact result rounded to the nearest number of IEEE 754 binary64,
  a tie going to the even one. The definitions of \<open>update_stats\<close> and
  \<open>measurement\<close> above compute both in exact reals. That is enough for the counts, for
  the minimum and the maximum (comparisons do not round), for the exit status and for
  the order of the system calls, none of which reads the sum. The order of minimum,
  average and maximum does depend on the last bit of the sum and of the quotient, so the
  two lines are repeated here with their rounding.

  \<open>round_half_even\<close> rounds a real to the nearest integer, a tie to the even one.
\<close>

definition round_half_even :: "real \<Rightarrow> int" where
  "round_half_even y =
     (let f = \<lfloor>y\<rfloor>; r = y - of_int f
      in if r < 1 / 2 then f else if 1 / 2 < r then f + 1 else if even f then f else f + 1)"

text \<open>
  A binary64 number has 53 significant bits. For \<open>2^e \<le> |x| < 2^(e + 1)\<close> the
  numbers around \<open>x\<close> are the multiples of \<open>2^(e - 52)\<close>; below \<open>2^-1022\<close>, the
  least normal number, they are the multiples of \<open>2^-1074\<close>. \<open>exponent_double\<close>
  is this \<open>e\<close>, not less than \<open>-1022\<close>, read off the number of bits of the integer
  part of \<open>|x| * 2^1022\<close>. Values of \<open>2^1024\<close> and more, which binary64 turns into
  infinity, are not modelled: a sum of durations does not reach \<open>10^308\<close> seconds.
\<close>

definition emin_double :: nat where
  "emin_double = 1022"

definition exponent_double :: "real \<Rightarrow> int" where
  "exponent_double x =
     max (bitlen \<lfloor>\<bar>x\<bar> * 2 ^ emin_double\<rfloor> - 1 - int emin_double) (- int emin_double)"

definition ulp_double :: "real \<Rightarrow> real" where
  "ulp_double x = 2 powi (exponent_double x - 52)"

definition round_double :: "real \<Rightarrow> real" where
  "round_double x = of_int (round_half_even (x / ulp_double x)) * ulp_double x"

text \<open>
  The unit roundoff, and the least normal number.
\<close>

definition eps_double :: real where
  "eps_double = 1 / 2 ^ 53"

definition min_normal_double :: real where
  "min_normal_double = 2 powi (- int emin_double)"

text \<open>
  Lines 174 to 186 with the addition of line 181 rounded, and the loop around them
  (lines 165 to 187), which differs from \<open>timed_loop\<close> in this update only.
\<close>

definition update_stats_double :: "stats \<Rightarrow> int \<Rightarrow> real \<Rightarrow> stats" where
  "update_stats_double st rc secs =
     \<lparr>min_s = (if runs st = 0 then secs else if secs < min_s st then secs else min_s st),
      max_s = (if runs st = 0 then secs else if secs > max_s st then secs else max_s st),
      sum_s = round_double (sum_s st + secs),
      runs = runs st + 1,
      fails = (if rc \<noteq> 0 then fails st + 1 else fails st)\<rparr>"

function timed_loop_double :: "real \<Rightarrow> real \<Rightarrow> stats \<Rightarrow> world \<Rightarrow> stats step" where
  "timed_loop_double total_start duration st w =
     (case now_monotonic w of
        Stuck \<Rightarrow> Stuck
      | Halt c w1 \<Rightarrow> Halt c w1
      | Ret t w1 \<Rightarrow>
          (let elapsed = t - total_start in
           if elapsed \<ge> duration then Ret st w1
           else
             (case run_once w1 of
                Stuck \<Rightarrow> Stuck
              | Halt c w2 \<Rightarrow> Halt c w2
              | Ret r w2 \<Rightarrow>
                  timed_loop_double total_start duration
                    (update_stats_double st (fst r) (secs_after (snd r))) w2)))"
  by pat_completeness auto
termination
  by (relation "measure (\<lambda>(total_start, duration, st, w). length w)")
     (auto dest!: now_monotonic_shrinks run_once_shrinks)

declare timed_loop_double.simps [simp del]

text \<open>
  Lines 158 to 199 with this loop and with the division of line 190 rounded. The
  division converts \<open>runs\<close> from \<open>long\<close> to \<open>double\<close>, which rounds as well.
\<close>

definition measurement_double :: "int \<Rightarrow> real \<Rightarrow> world \<Rightarrow> outcome" where
  "measurement_double warmups duration w =
     (case now_monotonic w of
        Stuck \<Rightarrow> Unscripted
      | Halt c w1 \<Rightarrow> Exit c None w1
      | Ret total_start w1 \<Rightarrow>
          (case timed_loop_double total_start duration stats0 w1 of
             Stuck \<Rightarrow> Unscripted
           | Halt c w2 \<Rightarrow> Exit c None w2
           | Ret st w2 \<Rightarrow>
               (case now_monotonic w2 of
                  Stuck \<Rightarrow> Unscripted
                | Halt c w3 \<Rightarrow> Exit c None w3
                | Ret t w3 \<Rightarrow>
                    (let total_elapsed = t - total_start;
                         avg_s = (if runs st > 0
                                  then round_double (sum_s st / round_double (of_int (runs st)))
                                  else 0)
                     in Exit (if fails st > 0 then EXIT_FAILURE else EXIT_SUCCESS)
                          (Some \<lparr>rep_min = (if runs st \<noteq> 0 then min_s st else 0),
                                 rep_avg = (if runs st \<noteq> 0 then avg_s else 0),
                                 rep_max = (if runs st \<noteq> 0 then max_s st else 0),
                                 rep_total = total_elapsed,
                                 rep_runs = runs st,
                                 rep_fails = fails st,
                                 rep_warmups = warmups\<rparr>)
                          w3))))"

text \<open>One step of the rounded fold for a result of \<open>run_once\<close>.\<close>

fun fold_run_double :: "stats \<Rightarrow> int \<times> real option \<Rightarrow> stats" where
  "fold_run_double st (rc, out) = update_stats_double st rc (secs_after out)"

text \<open>
  Two results of the loop that agree in everything but the sum, and two outcomes that
  agree in everything but the reported average.
\<close>

fun same_but_sum :: "stats step \<Rightarrow> stats step \<Rightarrow> bool" where
  "same_but_sum (Ret a w) (Ret b w') =
     (w = w' \<and> min_s a = min_s b \<and> max_s a = max_s b \<and> runs a = runs b \<and> fails a = fails b)"
| "same_but_sum (Halt c w) (Halt c' w') = (c = c' \<and> w = w')"
| "same_but_sum Stuck Stuck = True"
| "same_but_sum x y = False"

fun same_but_avg :: "outcome \<Rightarrow> outcome \<Rightarrow> bool" where
  "same_but_avg (Exit s (Some r) w) (Exit s' (Some r') w') =
     (s = s' \<and> w = w' \<and> r\<lparr>rep_avg := rep_avg r'\<rparr> = r')"
| "same_but_avg (Exit s None w) (Exit s' None w') = (s = s' \<and> w = w')"
| "same_but_avg Unscripted Unscripted = True"
| "same_but_avg x y = False"

section \<open>Observations of the timed loop\<close>

text \<open>
  The runs of the timed loop, in order: what each call of \<open>run_once\<close> made by
  lines 165 to 187 returned. The function follows the loop and keeps the results that
  the loop folds into the statistics.
\<close>

function measured_runs :: "real \<Rightarrow> real \<Rightarrow> world \<Rightarrow> (int \<times> real option) list" where
  "measured_runs total_start duration w =
     (case now_monotonic w of
        Ret t w1 \<Rightarrow>
          if t - total_start \<ge> duration then []
          else (case run_once w1 of
                  Ret r w2 \<Rightarrow> r # measured_runs total_start duration w2
                | _ \<Rightarrow> [])
      | _ \<Rightarrow> [])"
  by pat_completeness auto
termination
  by (relation "measure (\<lambda>(total_start, duration, w). length w)")
     (auto dest!: now_monotonic_shrinks run_once_shrinks)

declare measured_runs.simps [simp del]

text \<open>
  One step of the fold for a result of \<open>run_once\<close>, as the loop body does it; the
  duration that the loop records for the result; and whether the loop counts it as a
  failure.
\<close>

fun fold_run :: "stats \<Rightarrow> int \<times> real option \<Rightarrow> stats" where
  "fold_run st (rc, out) = update_stats st rc (secs_after out)"

fun recorded :: "int \<times> real option \<Rightarrow> real" where
  "recorded (rc, out) = secs_after out"

fun failed :: "int \<times> real option \<Rightarrow> bool" where
  "failed (rc, out) = (rc \<noteq> 0)"

section \<open>The system calls of a phase\<close>

text \<open>
  The results that one call of \<open>run_once\<close> takes from the world have one of three
  shapes: the reading \<open>t0\<close> and a failed \<open>fork\<close>; the reading, a child, interrupted
  waits and a failed wait; the reading, a child, interrupted waits, the reaping wait and
  the reading \<open>t1\<close>.
\<close>

definition fork_failed :: "real \<Rightarrow> world" where
  "fork_failed t0 = [Clock (Some t0), Fork None]"

definition wait_failed :: "real \<Rightarrow> child \<Rightarrow> nat \<Rightarrow> world" where
  "wait_failed t0 ch k =
     Clock (Some t0) # Fork (Some ch) # replicate k (Waitpid Interrupted) @ [Waitpid WaitError]"

definition completed :: "real \<Rightarrow> child \<Rightarrow> nat \<Rightarrow> real \<Rightarrow> world" where
  "completed t0 ch k t1 =
     Clock (Some t0) # Fork (Some ch) # replicate k (Waitpid Interrupted)
       @ [Waitpid Reaped, Clock (Some t1)]"

text \<open>
  Recognisers of these shapes on a list of events. \<open>run_events\<close> takes the events of one
  run from the front and yields the rest; \<open>reap_events\<close> does so for the waits.
\<close>

fun is_fork :: "event \<Rightarrow> bool" where
  "is_fork (Fork f) = True"
| "is_fork e = False"

fun reap_events :: "world \<Rightarrow> world option" where
  "reap_events (Waitpid Interrupted # es) = reap_events es"
| "reap_events (Waitpid WaitError # es) = Some es"
| "reap_events (Waitpid Reaped # Clock (Some t1) # es) = Some es"
| "reap_events es = None"

fun run_events :: "world \<Rightarrow> world option" where
  "run_events (Clock (Some t0) # Fork None # es) = Some es"
| "run_events (Clock (Some t0) # Fork (Some ch) # es) = reap_events es"
| "run_events es = None"

lemma reap_events_shrinks:
  "reap_events es = Some es' \<Longrightarrow> length es' < length es"
  by (induction es rule: reap_events.induct) auto

lemma run_events_shrinks:
  "run_events es = Some es' \<Longrightarrow> length es' < length es"
  by (induction es rule: run_events.induct) (auto dest: reap_events_shrinks)

text \<open>
  The events of a timed phase that ends: before every run a reading of the clock that
  is less than \<open>duration\<close> after \<open>total_start\<close>, and at the end one reading that is
  not, with nothing after it. The readings inside a run are not constrained.
\<close>

function (sequential) gated :: "real \<Rightarrow> real \<Rightarrow> world \<Rightarrow> bool" where
  "gated total_start duration (Clock (Some c) # es) =
     (if duration \<le> c - total_start then es = []
      else (case run_events es of
              None \<Rightarrow> False
            | Some es' \<Rightarrow> gated total_start duration es'))"
| "gated total_start duration es = False"
  by pat_completeness auto
termination
  by (relation "measure (\<lambda>(total_start, duration, es). length es)")
     (auto dest: run_events_shrinks)

text \<open>The events of exactly \<open>n\<close> runs, one after the other.\<close>

fun n_runs :: "nat \<Rightarrow> world \<Rightarrow> bool" where
  "n_runs 0 es = (es = [])"
| "n_runs (Suc n) es =
     (case run_events es of
        None \<Rightarrow> False
      | Some es' \<Rightarrow> n_runs n es')"

text \<open>An outcome with another warmup count in its report, if it has one.\<close>

fun set_warmups :: "int \<Rightarrow> outcome \<Rightarrow> outcome" where
  "set_warmups n (Exit status None w) = Exit status None w"
| "set_warmups n (Exit status (Some rep) w) = Exit status (Some (rep\<lparr>rep_warmups := n\<rparr>)) w"
| "set_warmups n Unscripted = Unscripted"

text \<open>The option values that lines 119, 127 and 132 reject.\<close>

fun invalid :: "opt \<Rightarrow> bool" where
  "invalid (OptW n) = (n < 0)"
| "invalid (OptD x) = (x \<le> 0)"
| "invalid OptOther = True"

section \<open>Example worlds\<close>

text \<open>
  A world for examples: the reading of \<open>total_start\<close> at 10 s, a run of 1 s that
  exits with 0, a run of 3 s (one interrupted wait) that exits with 2 and ends after the
  budget of 2 s, the check that ends the loop and the reading for the total.
\<close>

definition two_runs :: world where
  "two_runs =
     [Clock (Some 10),
      Clock (Some 10), Clock (Some 10), Fork (Some (Runs (Exited 0))), Waitpid Reaped, Clock (Some 11),
      Clock (Some 11), Clock (Some 11), Fork (Some (Runs (Exited 2))), Waitpid Interrupted, Waitpid Reaped, Clock (Some 14),
      Clock (Some 14),
      Clock (Some 14)]"

text \<open>
  Two warmup runs before \<open>two_runs\<close>: a child killed by signal 9 after 7 s, and a
  \<open>fork\<close> that fails.
\<close>

definition warmed_up :: world where
  "warmed_up =
     [Clock (Some 1), Fork (Some (Runs (Signaled 9))), Waitpid Reaped, Clock (Some 8),
      Clock (Some 8), Fork None] @ two_runs"

text \<open>
  One measured run whose child is created and whose wait fails, between the readings 0
  and 7 of the clock; the first reading is \<open>total_start\<close>, the last one the total.
\<close>

definition lost_wait :: world where
  "lost_wait =
     [Clock (Some 0),
      Clock (Some 0), Clock (Some 0), Fork (Some (Runs (Exited 0))), Waitpid WaitError,
      Clock (Some 7),
      Clock (Some 7)]"

text \<open>
  Three measured runs of the same duration
  \<open>0x1.6afc4c165907ep+1 = 6385709080744062 / 2^51\<close> (about 2.8358 s). Every reading
  of the clock is a binary64 number, the readings grow, and each difference
  \<open>t1 - t0\<close> is this duration exactly. The budget is 8 s.
\<close>

definition d0 :: real where
  "d0 = 6385709080744062 / 2 ^ 51"

definition three_equal_runs :: world where
  "three_equal_runs =
     [Clock (Some 0),
      Clock (Some 0), Clock (Some 0), Fork (Some (Runs (Exited 0))), Waitpid Reaped,
        Clock (Some d0),
      Clock (Some 3), Clock (Some 3), Fork (Some (Runs (Exited 0))), Waitpid Reaped,
        Clock (Some (3 + d0)),
      Clock (Some (9 - d0)), Clock (Some (9 - d0)), Fork (Some (Runs (Exited 0))),
        Waitpid Reaped, Clock (Some 9),
      Clock (Some 9),
      Clock (Some 9)]"

section \<open>Facts about run_once\<close>

lemma now_monotonic_Ret:
  "now_monotonic w = Ret t w' \<longleftrightarrow> w = Clock (Some t) # w'"
  by (cases w rule: now_monotonic.cases) auto

lemma wait_loop_interrupted:
  "wait_loop ch (replicate k (Waitpid Interrupted) @ w) = wait_loop ch w"
  by (induction k) auto

lemma Cons_eq_replicate_append:
  "x # w = replicate k a @ b # w' \<longleftrightarrow>
     (k = 0 \<and> x = b \<and> w = w') \<or> (\<exists>j. k = Suc j \<and> x = a \<and> w = replicate j a @ b # w')"
  by (cases k) auto

lemma wait_loop_reaped:
  "wait_loop ch w = Ret (Some st) w' \<longleftrightarrow>
     (\<exists>k. w = replicate k (Waitpid Interrupted) @ Waitpid Reaped # w') \<and> st = child_branch ch"
proof (induction ch w rule: wait_loop.induct)
  case (1 ch w)
  have "(\<exists>k. Waitpid Interrupted # w = replicate k (Waitpid Interrupted) @ Waitpid Reaped # w')
      \<longleftrightarrow> (\<exists>j. w = replicate j (Waitpid Interrupted) @ Waitpid Reaped # w')"
    by (auto simp: Cons_eq_replicate_append)
  with 1 show ?case by simp
next
  case (3 ch w)
  have "(\<exists>k. Waitpid Reaped # w = replicate k (Waitpid Interrupted) @ Waitpid Reaped # w')
      \<longleftrightarrow> w = w'"
    by (auto simp: Cons_eq_replicate_append)
  then show ?case by auto
qed (auto simp: Cons_eq_replicate_append)

lemma success_iff:
  "WIFEXITED st \<and> WEXITSTATUS st = 0 \<longleftrightarrow> st = Exited 0"
  by (cases st) auto

lemma wait_loop_failed:
  "wait_loop ch w = Ret None w' \<longleftrightarrow>
     (\<exists>k. w = replicate k (Waitpid Interrupted) @ Waitpid WaitError # w')"
proof (induction ch w rule: wait_loop.induct)
  case (1 ch w)
  have "(\<exists>k. Waitpid Interrupted # w = replicate k (Waitpid Interrupted) @ Waitpid WaitError # w')
      \<longleftrightarrow> (\<exists>j. w = replicate j (Waitpid Interrupted) @ Waitpid WaitError # w')"
    by (auto simp: Cons_eq_replicate_append)
  with 1 show ?case by simp
next
  case (2 ch w)
  have "(\<exists>k. Waitpid WaitError # w = replicate k (Waitpid Interrupted) @ Waitpid WaitError # w')
      \<longleftrightarrow> w = w'"
    by (auto simp: Cons_eq_replicate_append)
  then show ?case by auto
qed (auto simp: Cons_eq_replicate_append)

lemma run_once_fork_failed:
  "run_once (fork_failed t0 @ w) = Ret (- 1, None) w"
  by (simp add: run_once_def fork_failed_def)

lemma run_once_wait_failed:
  "run_once (wait_failed t0 ch k @ w) = Ret (- 1, None) w"
proof -
  have "wait_loop ch (replicate k (Waitpid Interrupted) @ Waitpid WaitError # w) = Ret None w"
    by (auto simp: wait_loop_failed)
  then show ?thesis by (simp add: run_once_def wait_failed_def)
qed

lemma run_once_completed:
  "run_once (completed t0 ch k t1 @ w) =
     Ret (if child_branch ch = Exited 0 then 0 else 1, Some (t1 - t0)) w"
  by (simp add: run_once_def completed_def wait_loop_interrupted success_iff)

lemma run_once_Ret:
  assumes "run_once w = Ret r w'"
  shows "(\<exists>t0. w = fork_failed t0 @ w') \<or>
         (\<exists>t0 ch k. w = wait_failed t0 ch k @ w') \<or>
         (\<exists>t0 ch k t1. w = completed t0 ch k t1 @ w')"
  using assms unfolding run_once_def fork_failed_def wait_failed_def completed_def
  by (auto simp: now_monotonic_Ret wait_loop_reaped wait_loop_failed
      split: step.splits list.splits event.splits option.splits if_splits)

lemma reap_events_interrupted:
  "reap_events (replicate k (Waitpid Interrupted) @ es) = reap_events es"
  by (induction k) auto

lemma run_events_shapes:
  "run_events (fork_failed t0 @ rest) = Some rest"
  "run_events (wait_failed t0 ch k @ rest) = Some rest"
  "run_events (completed t0 ch k t1 @ rest) = Some rest"
  by (simp_all add: fork_failed_def wait_failed_def completed_def reap_events_interrupted)

lemma forks_shapes:
  "length (filter is_fork (fork_failed t0)) = 1"
  "length (filter is_fork (wait_failed t0 ch k)) = 1"
  "length (filter is_fork (completed t0 ch k t1)) = 1"
  by (simp_all add: fork_failed_def wait_failed_def completed_def)

lemma run_once_consumes:
  assumes "run_once w = Ret r w'"
  shows "\<exists>es. w = es @ w' \<and> length (filter is_fork es) = 1 \<and>
              (\<forall>rest. run_events (es @ rest) = Some rest)"
proof -
  from run_once_Ret [OF assms] consider
      t0 where "w = fork_failed t0 @ w'"
    | t0 ch k where "w = wait_failed t0 ch k @ w'"
    | t0 ch k t1 where "w = completed t0 ch k t1 @ w'"
    by blast
  then show ?thesis
  proof cases
    case 1
    then show ?thesis
      by (intro exI [of _ "fork_failed t0"]) (simp add: run_events_shapes forks_shapes)
  next
    case 2
    then show ?thesis
      by (intro exI [of _ "wait_failed t0 ch k"]) (simp add: run_events_shapes forks_shapes)
  next
    case 3
    then show ?thesis
      by (intro exI [of _ "completed t0 ch k t1"]) (simp add: run_events_shapes forks_shapes)
  qed
qed

section \<open>The statistics as a fold over the measured runs\<close>

lemma timed_loop_fold:
  "timed_loop total_start duration st w = Ret st' w' \<Longrightarrow>
     st' = foldl fold_run st (measured_runs total_start duration w)"
proof (induction total_start duration st w rule: timed_loop.induct)
  case (1 total_start duration st w)
  from "1.prems" obtain t w1 where t: "now_monotonic w = Ret t w1"
    by (auto simp: timed_loop.simps [of _ _ _ w] split: step.splits)
  show ?case
  proof (cases "t - total_start \<ge> duration")
    case True
    with t "1.prems" show ?thesis
      by (simp add: timed_loop.simps [of _ _ _ w] measured_runs.simps [of _ _ w])
  next
    case False
    with t "1.prems" obtain r w2 where r: "run_once w1 = Ret r w2"
      by (auto simp: timed_loop.simps [of _ _ _ w] split: step.splits)
    with t False "1.prems"
    have "timed_loop total_start duration (update_stats st (fst r) (secs_after (snd r))) w2 = Ret st' w'"
      by (simp add: timed_loop.simps [of _ _ _ w])
    with "1.IH" [OF t refl _ r] False
    have "st' = foldl fold_run (update_stats st (fst r) (secs_after (snd r)))
                  (measured_runs total_start duration w2)"
      by simp
    moreover have "fold_run st r = update_stats st (fst r) (secs_after (snd r))"
      by (cases r) simp
    ultimately show ?thesis using t False r
      by (simp add: measured_runs.simps [of _ _ w])
  qed
qed

lemma fold_run_fields:
  "runs (fold_run st r) = runs st + 1"
  "sum_s (fold_run st r) = sum_s st + recorded r"
  "fails (fold_run st r) = (if failed r then fails st + 1 else fails st)"
  "min_s (fold_run st r) = (if runs st = 0 then recorded r else min (min_s st) (recorded r))"
  "max_s (fold_run st r) = (if runs st = 0 then recorded r else max (max_s st) (recorded r))"
  by (cases r; simp add: update_stats_def min_def max_def)+

lemma foldl_runs:
  "runs (foldl fold_run st rs) = runs st + int (length rs)"
  by (induction rs arbitrary: st) (simp_all add: fold_run_fields)

lemma foldl_sum:
  "sum_s (foldl fold_run st rs) = sum_s st + sum_list (map recorded rs)"
  by (induction rs arbitrary: st) (simp_all add: fold_run_fields)

lemma foldl_fails:
  "fails (foldl fold_run st rs) = fails st + int (length (filter failed rs))"
  by (induction rs arbitrary: st) (simp_all add: fold_run_fields)

lemma Min_insert_min:
  fixes a b :: real
  assumes "finite A"
  shows "Min (insert (min a b) A) = Min (insert a (insert b A))"
proof (cases "A = {}")
  case True
  then show ?thesis by simp
next
  case False
  with assms show ?thesis by (simp add: min.assoc)
qed

lemma Max_insert_max:
  fixes a b :: real
  assumes "finite A"
  shows "Max (insert (max a b) A) = Max (insert a (insert b A))"
proof (cases "A = {}")
  case True
  then show ?thesis by simp
next
  case False
  with assms show ?thesis by (simp add: max.assoc)
qed

lemma foldl_min_started:
  "0 < runs st \<Longrightarrow>
     min_s (foldl fold_run st rs) = Min (insert (min_s st) (set (map recorded rs)))"
proof (induction rs arbitrary: st)
  case Nil
  then show ?case by simp
next
  case (Cons r rs)
  have "0 < runs (fold_run st r)" using Cons.prems by (simp add: fold_run_fields)
  then have "min_s (foldl fold_run (fold_run st r) rs)
      = Min (insert (min_s (fold_run st r)) (set (map recorded rs)))"
    by (rule Cons.IH)
  moreover have "min_s (fold_run st r) = min (min_s st) (recorded r)"
    using Cons.prems by (simp add: fold_run_fields)
  moreover have "Min (insert (min (min_s st) (recorded r)) (set (map recorded rs)))
      = Min (insert (min_s st) (insert (recorded r) (set (map recorded rs))))"
    by (rule Min_insert_min) simp
  ultimately show ?case by (simp del: Min_insert)
qed

lemma foldl_max_started:
  "0 < runs st \<Longrightarrow>
     max_s (foldl fold_run st rs) = Max (insert (max_s st) (set (map recorded rs)))"
proof (induction rs arbitrary: st)
  case Nil
  then show ?case by simp
next
  case (Cons r rs)
  have "0 < runs (fold_run st r)" using Cons.prems by (simp add: fold_run_fields)
  then have "max_s (foldl fold_run (fold_run st r) rs)
      = Max (insert (max_s (fold_run st r)) (set (map recorded rs)))"
    by (rule Cons.IH)
  moreover have "max_s (fold_run st r) = max (max_s st) (recorded r)"
    using Cons.prems by (simp add: fold_run_fields)
  moreover have "Max (insert (max (max_s st) (recorded r)) (set (map recorded rs)))
      = Max (insert (max_s st) (insert (recorded r) (set (map recorded rs))))"
    by (rule Max_insert_max) simp
  ultimately show ?case by (simp del: Max_insert)
qed

lemma foldl_min:
  assumes "runs st = 0" and "rs \<noteq> []"
  shows "min_s (foldl fold_run st rs) = Min (set (map recorded rs))"
proof -
  from assms obtain r rs' where rs: "rs = r # rs'" by (cases rs) auto
  have "0 < runs (fold_run st r)" using assms by (simp add: fold_run_fields)
  from foldl_min_started [OF this, of rs'] assms show ?thesis
    by (simp add: rs fold_run_fields)
qed

lemma foldl_max:
  assumes "runs st = 0" and "rs \<noteq> []"
  shows "max_s (foldl fold_run st rs) = Max (set (map recorded rs))"
proof -
  from assms obtain r rs' where rs: "rs = r # rs'" by (cases rs) auto
  have "0 < runs (fold_run st r)" using assms by (simp add: fold_run_fields)
  from foldl_max_started [OF this, of rs'] assms show ?thesis
    by (simp add: rs fold_run_fields)
qed

lemma Min_le_average:
  fixes ds :: "real list"
  assumes "ds \<noteq> []"
  shows "Min (set ds) \<le> sum_list ds / real (length ds)"
proof -
  have "\<And>x. x \<in> set ds \<Longrightarrow> Min (set ds) \<le> x" by simp
  then have "sum_list (map (\<lambda>x. Min (set ds)) ds) \<le> sum_list (map (\<lambda>x. x) ds)"
    by (intro sum_list_mono) auto
  then have "real (length ds) * Min (set ds) \<le> sum_list ds"
    by (simp add: sum_list_triv)
  with assms show ?thesis
    by (simp add: pos_le_divide_eq mult.commute)
qed

lemma average_le_Max:
  fixes ds :: "real list"
  assumes "ds \<noteq> []"
  shows "sum_list ds / real (length ds) \<le> Max (set ds)"
proof -
  have "\<And>x. x \<in> set ds \<Longrightarrow> x \<le> Max (set ds)" by simp
  then have "sum_list (map (\<lambda>x. x) ds) \<le> sum_list (map (\<lambda>x. Max (set ds)) ds)"
    by (intro sum_list_mono) auto
  then have "sum_list ds \<le> real (length ds) * Max (set ds)"
    by (simp add: sum_list_triv)
  with assms show ?thesis
    by (simp add: pos_divide_le_eq mult.commute)
qed

lemma timed_loop_step:
  assumes "now_monotonic w = Ret c w1" and "c - total_start < duration"
      and "run_once w1 = Ret r w2"
  shows "timed_loop total_start duration st w = timed_loop total_start duration (fold_run st r) w2"
  using assms by (cases r) (simp add: timed_loop.simps [of _ _ _ w])

lemma timed_loop_stop:
  assumes "now_monotonic w = Ret c w1" and "duration \<le> c - total_start"
  shows "timed_loop total_start duration st w = Ret st w1"
  using assms by (simp add: timed_loop.simps [of _ _ _ w])


lemma gated_step:
  assumes "\<not> duration \<le> c - total_start"
      and "\<forall>rest. run_events (es1 @ rest) = Some rest"
      and "gated total_start duration es2"
  shows "gated total_start duration (Clock (Some c) # es1 @ es2)"
  using assms by simp

lemma n_runs_step:
  assumes "\<forall>rest. run_events (es1 @ rest) = Some rest" and "n_runs k es2"
  shows "n_runs (Suc k) (es1 @ es2)"
  using assms by simp

section \<open>Facts about main\<close>

lemma getopt_loop_valid:
  "getopt_loop opts warmups duration = Some (n, x) \<Longrightarrow> 0 \<le> warmups \<Longrightarrow> 0 < duration \<Longrightarrow>
     0 \<le> n \<and> 0 < x"
  by (induction opts warmups duration rule: getopt_loop.induct) (auto split: if_splits)

lemma main_valid:
  assumes "getopt_loop opts 0 5 = Some (warmups, duration)" and "cmd \<noteq> []"
      and "warmup_loop 0 warmups w = Ret u w1"
  shows "main opts cmd w = measurement warmups duration w1"
  using assms by (simp add: main_def)


lemma getopt_loop_None:
  "getopt_loop opts warmups duration = None \<longleftrightarrow> (\<exists>p \<in> set opts. invalid p)"
  by (induction opts warmups duration rule: getopt_loop.induct) auto

lemma warmup_loop_consumes:
  assumes "warmup_loop i warmups w = Ret u w1"
  shows "\<exists>es. w = es @ w1 \<and> n_runs (nat (warmups - i)) es \<and>
              length (filter is_fork es) = nat (warmups - i)"
  using assms
proof (induction i warmups w rule: warmup_loop.induct)
  case (1 i warmups w)
  show ?case
  proof (cases "i < warmups")
    case False
    with "1.prems" have "w1 = w" by (simp add: warmup_loop.simps [of i])
    with False show ?thesis by simp
  next
    case True
    with "1.prems" obtain r w2 where r: "run_once w = Ret r w2"
      and loop: "warmup_loop (i + 1) warmups w2 = Ret u w1"
      by (auto simp: warmup_loop.simps [of i] split: step.splits)
    from "1.IH" [OF True r loop] obtain es2 where
      es2: "w2 = es2 @ w1" "n_runs (nat (warmups - (i + 1))) es2"
        "length (filter is_fork es2) = nat (warmups - (i + 1))"
      by blast
    from run_once_consumes [OF r] obtain es1 where
      es1: "w = es1 @ w2" "length (filter is_fork es1) = 1"
        "\<forall>rest. run_events (es1 @ rest) = Some rest"
      by blast
    from True have k: "nat (warmups - i) = Suc (nat (warmups - (i + 1)))" by simp
    have "n_runs (nat (warmups - i)) (es1 @ es2)"
      unfolding k using es1(3) es2(2) by (rule n_runs_step)
    moreover have "w = (es1 @ es2) @ w1" using es1(1) es2(1) by simp
    moreover have "length (filter is_fork (es1 @ es2)) = nat (warmups - i)"
      using es1(2) es2(3) k by simp
    ultimately show ?thesis by blast
  qed
qed

lemma measurement_warmups:
  "measurement warmups duration w = set_warmups warmups (measurement 0 duration w)"
  by (simp add: measurement_def Let_def split: step.splits)








text \<open>The example world, evaluated.\<close>

lemma two_runs_timed:
  "timed_loop 10 2 stats0 (tl two_runs) = Ret \<lparr>min_s = 1, max_s = 3, sum_s = 4, runs = 2, fails = 1\<rparr> [Clock (Some 14)]"
  by (simp add: two_runs_def timed_loop.simps run_once_def stats0_def update_stats_def)


lemma two_runs_measurement:
  "measurement 0 2 two_runs = Exit 1 (Some \<lparr>rep_min = 1, rep_avg = 2, rep_max = 3, rep_total = 4, rep_runs = 2, rep_fails = 1, rep_warmups = 0\<rparr>) []"
  using two_runs_timed
  by (simp add: measurement_def two_runs_def EXIT_FAILURE_def)

section \<open>Facts about repeat.c\<close>

lemma put_msg_append: "put_msg msg out = out @ msg"
  by (induction msg arbitrary: out) auto

lemma print_loop_replicate:
  "print_loop i repeats msg no_newline out =
     out @ concat (replicate (nat (repeats - i)) (msg @ (if no_newline then [] else [CHR 0x0A])))"
proof (induction i repeats msg no_newline out rule: print_loop.induct)
  case (1 i repeats msg no_newline out)
  show ?case
  proof (cases "i < repeats")
    case False
    then show ?thesis by (simp add: print_loop.simps [of i])
  next
    case True
    then have k: "nat (repeats - i) = Suc (nat (repeats - (i + 1)))" by simp
    from True "1.IH" [OF True] show ?thesis
      unfolding k by (simp add: print_loop.simps [of i] put_msg_append Let_def)
  qed
qed

lemma repeat_getopt_loop_Some:
  "OptUnknown \<notin> set opts \<Longrightarrow>
     repeat_getopt_loop opts r nn = Some (repeat_count opts r, nn \<or> OptN \<in> set opts)"
  by (induction opts r nn rule: repeat_getopt_loop.induct) auto

section \<open>Facts about rounding to binary64\<close>

lemma round_half_even_bounds:
  "y - 1 / 2 \<le> of_int (round_half_even y)" "of_int (round_half_even y) \<le> y + 1 / 2"
  unfolding round_half_even_def Let_def by (auto; linarith)+

lemma round_half_even_of_int [simp]:
  "round_half_even (of_int k) = k"
  by (simp add: round_half_even_def)

lemma round_half_even_numeral [simp]:
  "round_half_even (numeral n) = numeral n"
  using round_half_even_of_int [of "numeral n"] by simp

lemma round_half_even_ge:
  "of_int k \<le> y \<Longrightarrow> k \<le> round_half_even y"
  unfolding round_half_even_def Let_def by (auto simp: le_floor_iff; linarith)

lemma exponent_double_bounds:
  assumes "2 powi (- int emin_double) \<le> \<bar>x\<bar>"
  shows "2 powi (exponent_double x) \<le> \<bar>x\<bar>" and "\<bar>x\<bar> < 2 powi (exponent_double x + 1)"
    and "- int emin_double \<le> exponent_double x"
proof -
  define k where "k = emin_double"
  let ?N = "\<lfloor>\<bar>x\<bar> * 2 ^ k\<rfloor>"
  have p: "(2::real) powi (- int k) = 1 / 2 ^ k"
    by (simp add: power_int_minus field_simps)
  from assms have "1 \<le> \<bar>x\<bar> * 2 ^ k"
    unfolding k_def [symmetric] p by (simp add: field_simps)
  then have N: "0 < ?N" by (simp add: less_floor_iff)
  then have b1: "1 \<le> bitlen ?N" using bitlen_eq_zero_iff [of ?N] bitlen_nonneg [of ?N] by linarith
  define n where "n = nat (bitlen ?N - 1)"
  from b1 have bn: "bitlen ?N = int n + 1" by (simp add: n_def)
  then have e: "exponent_double x = int n - int k"
    by (simp add: exponent_double_def k_def)
  show "- int emin_double \<le> exponent_double x" using e by (simp add: k_def)
  from bitlen_bounds [OF N] have lo: "2 ^ n \<le> ?N" and hi: "?N < 2 ^ Suc n"
    unfolding bn by (simp_all add: nat_add_distrib)
  have pd: "(2::real) powi (int m - int k) = 2 ^ m / 2 ^ k" for m :: nat
    by (simp add: power_int_diff)
  have "(2::real) ^ n / 2 ^ k \<le> of_int ?N / 2 ^ k"
  proof -
    from lo have "(of_int (2 ^ n) :: real) \<le> of_int ?N"
      by (simp only: of_int_le_iff)
    then show ?thesis by (simp add: divide_right_mono)
  qed
  also have "\<dots> \<le> \<bar>x\<bar>"
  proof -
    have "of_int ?N \<le> \<bar>x\<bar> * 2 ^ k" by simp
    then show ?thesis by (simp add: field_simps)
  qed
  finally show "2 powi (exponent_double x) \<le> \<bar>x\<bar>"
    unfolding e pd .
  have "\<bar>x\<bar> * 2 ^ k < of_int ?N + 1" by linarith
  also have "\<dots> \<le> 2 ^ Suc n"
  proof -
    from hi have "?N + 1 \<le> 2 ^ Suc n" by simp
    then have "(of_int (?N + 1) :: real) \<le> of_int (2 ^ Suc n)"
      by (simp only: of_int_le_iff)
    then show ?thesis by simp
  qed
  finally have "\<bar>x\<bar> < 2 ^ Suc n / 2 ^ k"
    by (simp add: field_simps)
  moreover have "exponent_double x + 1 = int (Suc n) - int k" using e by simp
  ultimately show "\<bar>x\<bar> < 2 powi (exponent_double x + 1)"
    by (simp only: pd)
qed

lemma two_powi_less_cancel:
  "(2::real) powi a < 2 powi b \<Longrightarrow> a < b"
  using power_int_increasing [of b a "2::real"] by (cases "a < b") auto

lemma exponent_double_unique:
  assumes "- int emin_double \<le> e" and "2 powi e \<le> \<bar>x\<bar>" and "\<bar>x\<bar> < 2 powi (e + 1)"
  shows "exponent_double x = e"
proof -
  have "(2::real) powi (- int emin_double) \<le> 2 powi e"
    using assms(1) by (intro power_int_increasing) simp_all
  with assms(2) have n: "2 powi (- int emin_double) \<le> \<bar>x\<bar>" by simp
  from exponent_double_bounds(1) [OF n] assms(3)
  have "(2::real) powi (exponent_double x) < 2 powi (e + 1)" by simp
  then have "exponent_double x < e + 1" by (rule two_powi_less_cancel)
  moreover from exponent_double_bounds(2) [OF n] assms(2)
  have "(2::real) powi e < 2 powi (exponent_double x + 1)" by simp
  then have "e < exponent_double x + 1" by (rule two_powi_less_cancel)
  ultimately show ?thesis by simp
qed

lemma round_double_in_binade:
  assumes "- int emin_double \<le> e" and "2 powi e \<le> \<bar>x\<bar>" and "\<bar>x\<bar> < 2 powi (e + 1)"
  shows "round_double x = of_int (round_half_even (x / 2 powi (e - 52))) * 2 powi (e - 52)"
  by (simp add: round_double_def ulp_double_def exponent_double_unique [OF assms])

lemma round_double_zero [simp]: "round_double 0 = 0"
  using round_half_even_of_int [of 0] by (simp add: round_double_def)

lemma ulp_double_pos: "0 < ulp_double x"
  by (simp add: ulp_double_def)

lemma round_double_half_ulp:
  "\<bar>round_double x - x\<bar> \<le> ulp_double x / 2"
proof -
  let ?u = "ulp_double x"
  have u: "0 < ?u" by (rule ulp_double_pos)
  from round_half_even_bounds [of "x / ?u"]
  have "\<bar>of_int (round_half_even (x / ?u)) - x / ?u\<bar> \<le> 1 / 2" by linarith
  then have "\<bar>of_int (round_half_even (x / ?u)) - x / ?u\<bar> * ?u \<le> 1 / 2 * ?u"
    using u by (intro mult_right_mono) simp_all
  moreover have "\<bar>of_int (round_half_even (x / ?u)) - x / ?u\<bar> * ?u
      = \<bar>round_double x - x\<bar>"
  proof -
    have "\<bar>of_int (round_half_even (x / ?u)) - x / ?u\<bar> * ?u
        = \<bar>(of_int (round_half_even (x / ?u)) - x / ?u) * ?u\<bar>"
      using u by (simp add: abs_mult)
    also have "(of_int (round_half_even (x / ?u)) - x / ?u) * ?u = round_double x - x"
      using u by (simp add: round_double_def field_simps)
    finally show ?thesis .
  qed
  ultimately show ?thesis by simp
qed

lemma round_double_error:
  assumes "x = 0 \<or> 2 powi (- int emin_double) \<le> \<bar>x\<bar>"
  shows "\<bar>round_double x - x\<bar> \<le> \<bar>x\<bar> / 2 ^ 53"
proof (cases "x = 0")
  case True
  then show ?thesis by simp
next
  case False
  with assms have n: "2 powi (- int emin_double) \<le> \<bar>x\<bar>" by simp
  have "ulp_double x = 2 powi (exponent_double x) / 2 ^ 52"
    by (simp add: ulp_double_def power_int_diff)
  also have "\<dots> \<le> \<bar>x\<bar> / 2 ^ 52"
    using exponent_double_bounds(1) [OF n] by (simp add: divide_right_mono)
  finally have "ulp_double x / 2 \<le> \<bar>x\<bar> / 2 ^ 53" by simp
  with round_double_half_ulp [of x] show ?thesis by linarith
qed

lemma round_double_ge_power:
  assumes "- int emin_double \<le> j" and "2 powi j \<le> x"
  shows "2 powi j \<le> round_double x"
proof -
  have pos: "0 < x" using assms(2) zero_less_power_int [of "2::real" j] by linarith
  then have ax: "\<bar>x\<bar> = x" by simp
  have "(2::real) powi (- int emin_double) \<le> 2 powi j"
    using assms(1) by (intro power_int_increasing) simp_all
  with assms(2) ax have n: "2 powi (- int emin_double) \<le> \<bar>x\<bar>" by simp
  let ?e = "exponent_double x"
  let ?u = "ulp_double x"
  have u: "?u = 2 powi ?e / 2 ^ 52" by (simp add: ulp_double_def power_int_diff)
  have upos: "0 < ?u" by (rule ulp_double_pos)
  from exponent_double_bounds(2) [OF n] assms(2) ax
  have "(2::real) powi j < 2 powi (?e + 1)" by simp
  then have "j < ?e + 1" by (rule two_powi_less_cancel)
  then have je: "(2::real) powi j \<le> 2 powi ?e"
    by (intro power_int_increasing) simp_all
  have "of_int (2 ^ 52) \<le> x / ?u"
    using exponent_double_bounds(1) [OF n] ax upos by (simp add: u field_simps)
  then have "2 ^ 52 \<le> round_half_even (x / ?u)" by (rule round_half_even_ge)
  then have "(of_int (2 ^ 52) :: real) \<le> of_int (round_half_even (x / ?u))"
    by (simp only: of_int_le_iff)
  then have "of_int (2 ^ 52) * ?u \<le> of_int (round_half_even (x / ?u)) * ?u"
    using upos by (intro mult_right_mono) simp_all
  moreover have "of_int (2 ^ 52) * ?u = 2 powi ?e" by (simp add: u)
  ultimately have "2 powi ?e \<le> round_double x" by (simp add: round_double_def)
  with je show ?thesis by simp
qed

lemma round_double_of_int:
  assumes "0 < k" and "k < 2 ^ 53"
  shows "round_double (of_int k) = of_int k"
proof -
  let ?x = "of_int k :: real"
  have "(2::real) powi (- int emin_double) \<le> 2 powi 0"
    by (intro power_int_increasing) simp_all
  also have "\<dots> \<le> \<bar>?x\<bar>" using assms(1) by simp
  finally have n: "2 powi (- int emin_double) \<le> \<bar>?x\<bar>" .
  let ?e = "exponent_double ?x"
  have "(2::real) powi ?e \<le> \<bar>?x\<bar>" by (rule exponent_double_bounds(1) [OF n])
  also have "\<bar>?x\<bar> < 2 powi 53"
  proof -
    from assms have "(of_int k :: real) < of_int (2 ^ 53)" by (simp only: of_int_less_iff)
    with assms(1) show ?thesis by simp
  qed
  finally have "?e < 53" by (rule two_powi_less_cancel)
  then obtain m :: nat where m: "52 - ?e = int m" using nonneg_int_cases [of "52 - ?e"] by auto
  then have em: "?e - 52 = - int m" by simp
  have u: "ulp_double ?x = 1 / 2 ^ m"
    unfolding ulp_double_def em by (simp add: power_int_minus field_simps)
  have "?x / ulp_double ?x = of_int (k * 2 ^ m)" by (simp add: u)
  then have "round_half_even (?x / ulp_double ?x) = k * 2 ^ m"
    by (simp only: round_half_even_of_int)
  then show ?thesis by (simp add: round_double_def u)
qed

lemma round_double_numeral:
  "(numeral n :: int) < 2 ^ 53 \<Longrightarrow> round_double (numeral n) = numeral n"
  using round_double_of_int [of "numeral n"] by simp

lemma rel_error_bounds:
  fixes r x eps :: real
  assumes "\<bar>r - x\<bar> \<le> x * eps"
  shows "(1 - eps) * x \<le> r" and "r \<le> (1 + eps) * x"
proof -
  from assms have "r - x \<le> x * eps" and "- (x * eps) \<le> r - x" by linarith+
  then show "(1 - eps) * x \<le> r" and "r \<le> (1 + eps) * x"
    by (simp_all add: algebra_simps)
qed

lemma round_double_step:
  assumes "- int emin_double \<le> j"
      and "s = 0 \<or> 2 powi j \<le> s" and "d = 0 \<or> 2 powi j \<le> d"
  shows "(1 - 1 / 2 ^ 53) * (s + d) \<le> round_double (s + d)"
    and "round_double (s + d) \<le> (1 + 1 / 2 ^ 53) * (s + d)"
    and "round_double (s + d) = 0 \<or> 2 powi j \<le> round_double (s + d)"
proof -
  have p: "(0::real) < 2 powi j" by simp
  from assms(2) p have "0 \<le> s" by (elim disjE) linarith+
  moreover from assms(3) p have "0 \<le> d" by (elim disjE) linarith+
  ultimately have nn: "0 \<le> s" "0 \<le> d" by simp_all
  have c: "s + d = 0 \<or> 2 powi j \<le> s + d"
    using assms(2,3) nn by auto
  then have n: "s + d = 0 \<or> 2 powi (- int emin_double) \<le> \<bar>s + d\<bar>"
  proof
    assume "s + d = 0" then show ?thesis by simp
  next
    assume a: "2 powi j \<le> s + d"
    have "(2::real) powi (- int emin_double) \<le> 2 powi j"
      using assms(1) by (intro power_int_increasing) simp_all
    with a nn show ?thesis by simp
  qed
  from round_double_error [OF n] nn
  have e: "\<bar>round_double (s + d) - (s + d)\<bar> \<le> (s + d) * (1 / 2 ^ 53)" by simp
  then show "(1 - 1 / 2 ^ 53) * (s + d) \<le> round_double (s + d)"
    by (rule rel_error_bounds)
  from e show "round_double (s + d) \<le> (1 + 1 / 2 ^ 53) * (s + d)"
    by (rule rel_error_bounds)
  from c show "round_double (s + d) = 0 \<or> 2 powi j \<le> round_double (s + d)"
  proof
    assume "s + d = 0" then show ?thesis by simp
  next
    assume "2 powi j \<le> s + d"
    with assms(1) have "2 powi j \<le> round_double (s + d)" by (rule round_double_ge_power)
    then show ?thesis by simp
  qed
qed

lemma eps_double_bounds: "0 < eps_double" "eps_double < 1"
  by (simp_all add: eps_double_def)

lemma two_powi_threshold:
  "(2::real) powi (53 - int emin_double) = 2 ^ 53 * min_normal_double"
  by (simp add: min_normal_double_def power_int_diff power_int_minus field_simps)

section \<open>The rounded statistics as a fold\<close>

lemma timed_loop_double_fold:
  "timed_loop_double total_start duration st w = Ret st' w' \<Longrightarrow>
     st' = foldl fold_run_double st (measured_runs total_start duration w)"
proof (induction total_start duration st w rule: timed_loop_double.induct)
  case (1 total_start duration st w)
  from "1.prems" obtain t w1 where t: "now_monotonic w = Ret t w1"
    by (auto simp: timed_loop_double.simps [of _ _ _ w] split: step.splits)
  show ?case
  proof (cases "t - total_start \<ge> duration")
    case True
    with t "1.prems" show ?thesis
      by (simp add: timed_loop_double.simps [of _ _ _ w] measured_runs.simps [of _ _ w])
  next
    case False
    with t "1.prems" obtain r w2 where r: "run_once w1 = Ret r w2"
      by (auto simp: timed_loop_double.simps [of _ _ _ w] split: step.splits)
    with t False "1.prems"
    have "timed_loop_double total_start duration
        (update_stats_double st (fst r) (secs_after (snd r))) w2 = Ret st' w'"
      by (simp add: timed_loop_double.simps [of _ _ _ w])
    with "1.IH" [OF t refl _ r] False
    have "st' = foldl fold_run_double (update_stats_double st (fst r) (secs_after (snd r)))
                  (measured_runs total_start duration w2)"
      by simp
    moreover have "fold_run_double st r = update_stats_double st (fst r) (secs_after (snd r))"
      by (cases r) simp
    ultimately show ?thesis using t False r
      by (simp add: measured_runs.simps [of _ _ w])
  qed
qed

lemma fold_run_double_fields:
  "runs (fold_run_double st r) = runs st + 1"
  "sum_s (fold_run_double st r) = round_double (sum_s st + recorded r)"
  "min_s (fold_run_double st r) = (if runs st = 0 then recorded r else min (min_s st) (recorded r))"
  "max_s (fold_run_double st r) = (if runs st = 0 then recorded r else max (max_s st) (recorded r))"
  by (cases r; simp add: update_stats_double_def min_def max_def)+

lemma foldl_double_same:
  assumes "runs a = runs b" and "min_s a = min_s b" and "max_s a = max_s b"
  shows "runs (foldl fold_run_double a rs) = runs (foldl fold_run b rs) \<and>
         min_s (foldl fold_run_double a rs) = min_s (foldl fold_run b rs) \<and>
         max_s (foldl fold_run_double a rs) = max_s (foldl fold_run b rs)"
  using assms
proof (induction rs arbitrary: a b)
  case Nil
  then show ?case by simp
next
  case (Cons r rs)
  have "runs (fold_run_double a r) = runs (fold_run b r)"
    "min_s (fold_run_double a r) = min_s (fold_run b r)"
    "max_s (fold_run_double a r) = max_s (fold_run b r)"
    using Cons.prems by (simp_all add: fold_run_double_fields fold_run_fields)
  from Cons.IH [OF this] show ?case by simp
qed

lemma foldl_double_sum:
  assumes j: "- int emin_double \<le> j"
      and ds: "\<forall>r \<in> set rs. recorded r = 0 \<or> 2 powi j \<le> recorded r"
      and s0: "sum_s st = 0 \<or> 2 powi j \<le> sum_s st"
  shows "(1 - eps_double) ^ length rs * (sum_s st + sum_list (map recorded rs))
           \<le> sum_s (foldl fold_run_double st rs) \<and>
         sum_s (foldl fold_run_double st rs)
           \<le> (1 + eps_double) ^ length rs * (sum_s st + sum_list (map recorded rs)) \<and>
         (sum_s (foldl fold_run_double st rs) = 0 \<or>
          2 powi j \<le> sum_s (foldl fold_run_double st rs))"
  using ds s0
proof (induction rs arbitrary: st)
  case Nil
  then show ?case by simp
next
  case (Cons r rs)
  let ?lo = "1 - eps_double" and ?hi = "1 + eps_double"
  let ?s = "sum_s st" and ?d = "recorded r" and ?T = "sum_list (map recorded rs)"
  let ?s1 = "sum_s (fold_run_double st r)"
  let ?S = "sum_s (foldl fold_run_double (fold_run_double st r) rs)"
  have lo: "0 \<le> ?lo" "?lo \<le> 1" and hi: "1 \<le> ?hi"
    using eps_double_bounds by simp_all
  from Cons.prems(1) have d: "?d = 0 \<or> 2 powi j \<le> ?d"
    and rs: "\<forall>r \<in> set rs. recorded r = 0 \<or> 2 powi j \<le> recorded r"
    by simp_all
  have s1: "?s1 = round_double (?s + ?d)" by (simp add: fold_run_double_fields)
  from round_double_step [OF j Cons.prems(2) d]
  have a: "?lo * (?s + ?d) \<le> ?s1" and b: "?s1 \<le> ?hi * (?s + ?d)"
    and c: "?s1 = 0 \<or> 2 powi j \<le> ?s1"
    unfolding s1 eps_double_def by simp_all
  from Cons.IH [OF rs c]
  have ih1: "?lo ^ length rs * (?s1 + ?T) \<le> ?S"
    and ih2: "?S \<le> ?hi ^ length rs * (?s1 + ?T)"
    and ih3: "?S = 0 \<or> 2 powi j \<le> ?S"
    by simp_all
  have T: "0 \<le> ?T"
  proof (rule sum_list_nonneg)
    fix x assume "x \<in> set (map recorded rs)"
    then obtain q where "q \<in> set rs" and "x = recorded q" by auto
    with rs have "x = 0 \<or> 2 powi j \<le> x" by simp
    moreover have "(0::real) < 2 powi j" by simp
    ultimately show "0 \<le> x" by (elim disjE) linarith+
  qed
  have "?lo * (?s + ?d + ?T) = ?lo * (?s + ?d) + ?lo * ?T" by (simp add: algebra_simps)
  also have "\<dots> \<le> ?s1 + ?T"
  proof -
    have "?lo * ?T \<le> 1 * ?T" using lo(2) T by (rule mult_right_mono)
    with a show ?thesis by simp
  qed
  finally have "?lo ^ length rs * (?lo * (?s + ?d + ?T)) \<le> ?lo ^ length rs * (?s1 + ?T)"
    using lo(1) by (intro mult_left_mono) simp_all
  with ih1 have lower: "?lo ^ length (r # rs) * (?s + sum_list (map recorded (r # rs))) \<le> ?S"
    by (simp add: algebra_simps)
  have "?s1 + ?T \<le> ?hi * (?s + ?d) + ?hi * ?T"
  proof -
    have "1 * ?T \<le> ?hi * ?T" using hi T by (rule mult_right_mono)
    with b show ?thesis by simp
  qed
  also have "\<dots> = ?hi * (?s + ?d + ?T)" by (simp add: algebra_simps)
  finally have "?hi ^ length rs * (?s1 + ?T) \<le> ?hi ^ length rs * (?hi * (?s + ?d + ?T))"
    using hi by (intro mult_left_mono) simp_all
  with ih2 have upper: "?S \<le> ?hi ^ length (r # rs) * (?s + sum_list (map recorded (r # rs)))"
    by (simp add: algebra_simps)
  from lower upper ih3 show ?case by simp
qed

text \<open>
  The rounded loop takes the same system calls as the exact one and ends with the same
  counts, minimum and maximum; the two measurements differ in the reported average
  only. What is proved of \<open>timed_loop\<close> and \<open>measurement\<close> about these holds with
  the rounding of lines 181 and 190 as well.
\<close>

lemma timed_loop_double_same:
  "min_s a = min_s st \<Longrightarrow> max_s a = max_s st \<Longrightarrow> runs a = runs st \<Longrightarrow> fails a = fails st \<Longrightarrow>
     same_but_sum (timed_loop_double total_start duration a w) (timed_loop total_start duration st w)"
proof (induction total_start duration st w arbitrary: a rule: timed_loop.induct)
  case (1 total_start duration st w)
  show ?case
  proof (cases "now_monotonic w")
    case Stuck
    then show ?thesis
      by (simp add: timed_loop.simps [of _ _ _ w] timed_loop_double.simps [of _ _ _ w])
  next
    case (Halt c w1)
    then show ?thesis
      by (simp add: timed_loop.simps [of _ _ _ w] timed_loop_double.simps [of _ _ _ w])
  next
    case (Ret t w1)
    show ?thesis
    proof (cases "duration \<le> t - total_start")
      case True
      with Ret "1.prems" show ?thesis
        by (simp add: timed_loop.simps [of _ _ _ w] timed_loop_double.simps [of _ _ _ w])
    next
      case False
      show ?thesis
      proof (cases "run_once w1")
        case Stuck
        with Ret False show ?thesis
          by (simp add: timed_loop.simps [of _ _ _ w] timed_loop_double.simps [of _ _ _ w])
      next
        case (Halt c w2)
        with Ret False show ?thesis
          by (simp add: timed_loop.simps [of _ _ _ w] timed_loop_double.simps [of _ _ _ w])
      next
        case run: (Ret r w2)
        let ?a = "update_stats_double a (fst r) (secs_after (snd r))"
        let ?b = "update_stats st (fst r) (secs_after (snd r))"
        have "min_s ?a = min_s ?b" "max_s ?a = max_s ?b" "runs ?a = runs ?b" "fails ?a = fails ?b"
          using "1.prems" by (simp_all add: update_stats_double_def update_stats_def)
        with "1.IH" [OF Ret refl _ run, of ?a] False
        have "same_but_sum (timed_loop_double total_start duration ?a w2)
                (timed_loop total_start duration ?b w2)"
          by simp
        with Ret False run show ?thesis
          by (simp add: timed_loop.simps [of _ _ _ w] timed_loop_double.simps [of _ _ _ w])
      qed
    qed
  qed
qed

lemma measurement_double_same:
  "same_but_avg (measurement_double warmups duration w) (measurement warmups duration w)"
proof (cases "now_monotonic w")
  case (Ret total_start w1)
  from timed_loop_double_same [of stats0 stats0 total_start duration w1]
  have s: "same_but_sum (timed_loop_double total_start duration stats0 w1)
             (timed_loop total_start duration stats0 w1)"
    by simp
  show ?thesis
  proof (cases "timed_loop total_start duration stats0 w1")
    case loop: (Ret st w2)
    with s obtain sd where d: "timed_loop_double total_start duration stats0 w1 = Ret sd w2"
      and f: "min_s sd = min_s st" "max_s sd = max_s st" "runs sd = runs st" "fails sd = fails st"
      by (cases "timed_loop_double total_start duration stats0 w1") auto
    show ?thesis
      by (cases "now_monotonic w2")
         (simp_all add: measurement_double_def measurement_def Ret loop d f Let_def)
  next
    case (Halt c w2)
    with s have "timed_loop_double total_start duration stats0 w1 = Halt c w2"
      by (cases "timed_loop_double total_start duration stats0 w1") auto
    with Halt Ret show ?thesis by (simp add: measurement_double_def measurement_def)
  next
    case Stuck
    with s have "timed_loop_double total_start duration stats0 w1 = Stuck"
      by (cases "timed_loop_double total_start duration stats0 w1") auto
    with Stuck Ret show ?thesis by (simp add: measurement_double_def measurement_def)
  qed
qed (simp_all add: measurement_double_def measurement_def)

text \<open>The example of three equal runs, evaluated.\<close>

lemma d0_bounds: "2 < d0" "d0 < 3"
  by (simp_all add: d0_def)

lemma d0_normal: "2 ^ 53 * min_normal_double \<le> d0"
proof -
  have "min_normal_double \<le> 2 powi (- 53)"
    unfolding min_normal_double_def
    by (intro power_int_increasing) (simp_all add: emin_double_def)
  then have "2 ^ 53 * min_normal_double \<le> 2 ^ 53 * 2 powi (- 53)"
    by (intro mult_left_mono) simp_all
  also have "\<dots> = (1::real)" by simp
  finally show ?thesis using d0_bounds by simp
qed

lemma round_d0_1: "round_double (0 + d0) = d0"
proof -
  have "round_double d0 = of_int (round_half_even (d0 / 2 powi (1 - 52))) * 2 powi (1 - 52)"
    by (rule round_double_in_binade) (simp_all add: emin_double_def d0_def)
  also have "d0 / 2 powi (1 - 52) = of_int 6385709080744062"
    by (simp add: d0_def)
  finally show ?thesis by (simp add: d0_def)
qed

lemma round_d0_2: "round_double (d0 + d0) = 2 * d0"
proof -
  have "round_double (d0 + d0)
      = of_int (round_half_even ((d0 + d0) / 2 powi (2 - 52))) * 2 powi (2 - 52)"
    by (rule round_double_in_binade) (simp_all add: emin_double_def d0_def)
  also have "(d0 + d0) / 2 powi (2 - 52) = of_int 6385709080744062"
    by (simp add: d0_def)
  finally show ?thesis by (simp add: d0_def)
qed

lemma round_d0_3: "round_double (2 * d0 + d0) = 4789281810558046 / 2 ^ 49"
proof -
  have "round_double (2 * d0 + d0)
      = of_int (round_half_even ((2 * d0 + d0) / 2 powi (3 - 52))) * 2 powi (3 - 52)"
    by (rule round_double_in_binade) (simp_all add: emin_double_def d0_def)
  also have "(2 * d0 + d0) / 2 powi (3 - 52) = 9578563621116093 / 2"
    by (simp add: d0_def)
  also have "round_half_even (9578563621116093 / 2) = 4789281810558046"
    by (simp add: round_half_even_def Let_def)
  finally show ?thesis by simp
qed

lemma round_d0_4:
  "round_double (4789281810558046 / 2 ^ 49 / round_double (of_int 3))
     = 6385709080744061 / 2 ^ 51"
proof -
  let ?q = "4789281810558046 / 2 ^ 49 / 3 :: real"
  have "round_double (of_int 3) = of_int 3" by (rule round_double_of_int) simp_all
  moreover have "round_double ?q = of_int (round_half_even (?q / 2 powi (1 - 52))) * 2 powi (1 - 52)"
    by (rule round_double_in_binade) (simp_all add: emin_double_def)
  moreover have "?q / 2 powi (1 - 52) = 19157127242232184 / 3"
    by simp
  moreover have "round_half_even (19157127242232184 / 3) = 6385709080744061"
    by (simp add: round_half_even_def Let_def)
  ultimately show ?thesis by simp
qed

lemma three_equal_runs_measured:
  "measured_runs 0 8 (tl three_equal_runs) = [(0, Some d0), (0, Some d0), (0, Some d0)]"
  using d0_bounds
  by (simp add: three_equal_runs_def measured_runs.simps run_once_def)

lemma three_equal_runs_timed:
  "timed_loop_double 0 8 stats0 (tl three_equal_runs) =
     Ret \<lparr>min_s = d0, max_s = d0, sum_s = 4789281810558046 / 2 ^ 49, runs = 3, fails = 0\<rparr>
       [Clock (Some 9)]"
proof -
  have a: "round_double d0 = d0" using round_d0_1 by simp
  have b: "round_double (2 * d0) = 2 * d0" using round_d0_2 by simp
  have c: "round_double (3 * d0) = 4789281810558046 / 2 ^ 49" using round_d0_3 by simp
  show ?thesis
    using d0_bounds
    by (simp add: three_equal_runs_def timed_loop_double.simps run_once_def stats0_def
        update_stats_double_def a b c)
qed

section \<open>The claims about bench.c\<close>

text \<open>
  C1. A run is completed when its child was created and reaped: the world starts with
  the reading \<open>t0\<close>, a successful \<open>fork\<close>, any number of interrupted waits, the
  reaping wait and the reading \<open>t1\<close>. \<open>run_once\<close> writes a duration exactly for
  such runs, and then returns 0 exactly when the child left normally with exit code 0,
  and 1 otherwise: for every other exit code (the 127 of a failed \<open>execvp\<close> among
  them) and for every death by a signal alike.
\<close>

theorem run_once_classification:
  "run_once w = Ret (rc, Some secs) w' \<longleftrightarrow>
     (\<exists>t0 ch k t1.
        w = Clock (Some t0) # Fork (Some ch) # replicate k (Waitpid Interrupted)
              @ Waitpid Reaped # Clock (Some t1) # w'
        \<and> secs = t1 - t0
        \<and> rc = (if child_branch ch = Exited 0 then 0 else 1))"
proof
  assume "run_once w = Ret (rc, Some secs) w'"
  then show "\<exists>t0 ch k t1.
        w = Clock (Some t0) # Fork (Some ch) # replicate k (Waitpid Interrupted)
              @ Waitpid Reaped # Clock (Some t1) # w'
        \<and> secs = t1 - t0
        \<and> rc = (if child_branch ch = Exited 0 then 0 else 1)"
    unfolding run_once_def
    by (auto simp: now_monotonic_Ret wait_loop_reaped success_iff
        split: step.splits list.splits event.splits option.splits if_splits)
next
  assume "\<exists>t0 ch k t1.
        w = Clock (Some t0) # Fork (Some ch) # replicate k (Waitpid Interrupted)
              @ Waitpid Reaped # Clock (Some t1) # w'
        \<and> secs = t1 - t0
        \<and> rc = (if child_branch ch = Exited 0 then 0 else 1)"
  then show "run_once w = Ret (rc, Some secs) w'"
    by (auto simp: run_once_def wait_loop_interrupted success_iff)
qed

text \<open>
  C2, as stated, fails in the arithmetic of the program. In \<open>three_equal_runs\<close> the
  three recorded durations are equal, so minimum and maximum are this duration,
  \<open>0x1.6afc4c165907ep+1\<close>. The sum of line 181 is rounded at the third addition, and
  the quotient of line 190 is \<open>0x1.6afc4c165907dp+1\<close>: the average is one unit in the
  last place below the minimum (the program prints
  \<open>Min: 2.835825\<close> and \<open>Avg: 2.835824\<close>).
\<close>

theorem average_below_minimum:
  "measurement_double 0 8 three_equal_runs =
     Exit 0 (Some \<lparr>rep_min = 6385709080744062 / 2 ^ 51,
                   rep_avg = 6385709080744061 / 2 ^ 51,
                   rep_max = 6385709080744062 / 2 ^ 51,
                   rep_total = 9, rep_runs = 3, rep_fails = 0, rep_warmups = 0\<rparr>) [] \<and>
   map recorded (measured_runs 0 8 (tl three_equal_runs))
     = [6385709080744062 / 2 ^ 51, 6385709080744062 / 2 ^ 51, 6385709080744062 / 2 ^ 51] \<and>
   (6385709080744061 / 2 ^ 51 :: real) < 6385709080744062 / 2 ^ 51"
proof -
  have "now_monotonic three_equal_runs = Ret 0 (tl three_equal_runs)"
    by (simp add: three_equal_runs_def)
  moreover have "round_double (4789281810558046 / 2 ^ 49 / round_double 3)
      = 6385709080744061 / 2 ^ 51"
    using round_d0_4 by simp
  ultimately have "measurement_double 0 8 three_equal_runs =
     Exit 0 (Some \<lparr>rep_min = d0, rep_avg = 6385709080744061 / 2 ^ 51, rep_max = d0,
                   rep_total = 9, rep_runs = 3, rep_fails = 0, rep_warmups = 0\<rparr>) []"
    using three_equal_runs_timed
    by (simp add: measurement_double_def EXIT_SUCCESS_def)
  then show ?thesis
    by (simp add: three_equal_runs_measured) (simp add: d0_def)
qed

text \<open>
  C2, amended. When the measurement has printed its report and counted \<open>n > 0\<close>
  runs, the reported minimum and maximum are the least and the greatest recorded
  duration, so the minimum is not above the maximum; the average is the rounded quotient
  of the rounded sum by \<open>n\<close>, and it lies between them up to the rounding of the
  \<open>n\<close> additions and the division: not below the minimum times
  \<open>(1 - 2^-53)^(n + 1)\<close>, not above the maximum times \<open>(1 + 2^-53)^(n + 1)\<close>. This
  holds for fewer than \<open>2^53\<close> runs whose recorded durations are zero or at least
  \<open>2^53\<close> times the least normal number (\<open>2^-969\<close> s), so that no operation
  underflows.
\<close>

theorem reported_avg_within_rounding:
  assumes "now_monotonic w = Ret total_start w1"
      and "measurement_double warmups duration w = Exit status (Some rep) w'"
      and "0 < rep_runs rep" and "rep_runs rep < 2 ^ 53"
      and "\<forall>r \<in> set (measured_runs total_start duration w1).
             recorded r = 0 \<or> 2 ^ 53 * min_normal_double \<le> recorded r"
  shows "rep_runs rep = int (length (measured_runs total_start duration w1)) \<and>
         rep_min rep = Min (set (map recorded (measured_runs total_start duration w1))) \<and>
         rep_max rep = Max (set (map recorded (measured_runs total_start duration w1))) \<and>
         rep_min rep \<le> rep_max rep \<and>
         rep_avg rep =
           round_double
             (sum_s (foldl fold_run_double stats0 (measured_runs total_start duration w1))
                / of_int (rep_runs rep)) \<and>
         rep_min rep * (1 - eps_double) ^ (length (measured_runs total_start duration w1) + 1)
           \<le> rep_avg rep \<and>
         rep_avg rep
           \<le> rep_max rep * (1 + eps_double) ^ (length (measured_runs total_start duration w1) + 1)"
proof -
  let ?rs = "measured_runs total_start duration w1"
  let ?ds = "map recorded ?rs"
  let ?n = "length ?rs"
  let ?lo = "1 - eps_double" and ?hi = "1 + eps_double"
  from assms(1,2) obtain st w2 where
    loop: "timed_loop_double total_start duration stats0 w1 = Ret st w2" and
    rep: "rep_min rep = (if runs st \<noteq> 0 then min_s st else 0)"
         "rep_max rep = (if runs st \<noteq> 0 then max_s st else 0)"
         "rep_avg rep = (if runs st \<noteq> 0 then
                           (if runs st > 0
                            then round_double (sum_s st / round_double (of_int (runs st)))
                            else 0) else 0)"
         "rep_runs rep = runs st"
    by (auto simp: measurement_double_def Let_def split: step.splits)
  from loop have st: "st = foldl fold_run_double stats0 ?rs" by (rule timed_loop_double_fold)
  from foldl_double_same [of stats0 stats0 ?rs]
  have same: "runs st = runs (foldl fold_run stats0 ?rs)"
    "min_s st = min_s (foldl fold_run stats0 ?rs)"
    "max_s st = max_s (foldl fold_run stats0 ?rs)"
    by (simp_all add: st)
  have n: "runs st = int ?n" by (simp add: same foldl_runs stats0_def)
  with assms(3) rep have ne: "?rs \<noteq> []" by auto
  then have ne': "?ds \<noteq> []" by simp
  have npos: "0 < ?n" using ne by simp
  have mn: "min_s st = Min (set ?ds)"
    unfolding same by (rule foldl_min) (simp_all add: stats0_def ne)
  have mx: "max_s st = Max (set ?ds)"
    unfolding same by (rule foldl_max) (simp_all add: stats0_def ne)
  have mean: "Min (set ?ds) \<le> sum_list ?ds / real ?n" "sum_list ?ds / real ?n \<le> Max (set ?ds)"
    using Min_le_average [OF ne'] average_le_Max [OF ne'] by simp_all
  have j: "- int emin_double \<le> 53 - int emin_double" by simp
  have "\<forall>r \<in> set ?rs. recorded r = 0 \<or> 2 powi (53 - int emin_double) \<le> recorded r"
    using assms(5) by (simp only: two_powi_threshold)
  moreover have "sum_s stats0 = 0 \<or> 2 powi (53 - int emin_double) \<le> sum_s stats0"
    by (simp add: stats0_def)
  ultimately have sums:
    "?lo ^ ?n * sum_list ?ds \<le> sum_s st"
    "sum_s st \<le> ?hi ^ ?n * sum_list ?ds"
    "sum_s st = 0 \<or> 2 powi (53 - int emin_double) \<le> sum_s st"
    using foldl_double_sum [OF j, of ?rs stats0] by (simp_all add: st stats0_def)
  have conv: "round_double (of_int (runs st)) = of_int (runs st)"
    using assms(3,4) rep(4) by (intro round_double_of_int) simp_all
  let ?q = "sum_s st / real ?n"
  have avg: "rep_avg rep = round_double ?q"
    using rep assms(3) conv n by simp
  have lo: "0 \<le> ?lo" and hi: "0 \<le> ?hi" using eps_double_bounds by simp_all
  have q0: "0 \<le> ?q"
  proof -
    have "(0::real) < 2 powi (53 - int emin_double)" by simp
    with sums(3) have "0 \<le> sum_s st" by (elim disjE) linarith+
    then show ?thesis by simp
  qed
  have qn: "?q = 0 \<or> 2 powi (- int emin_double) \<le> \<bar>?q\<bar>"
    using sums(3)
  proof
    assume "sum_s st = 0" then show ?thesis by simp
  next
    assume a: "2 powi (53 - int emin_double) \<le> sum_s st"
    have "real ?n \<le> 2 ^ 53"
    proof -
      from assms(4) rep(4) n have "int ?n \<le> 2 ^ 53" by simp
      then have "real_of_int (int ?n) \<le> real_of_int (2 ^ 53)" by (simp only: of_int_le_iff)
      then show ?thesis by simp
    qed
    then have "min_normal_double * real ?n \<le> min_normal_double * 2 ^ 53"
      by (intro mult_left_mono) (simp_all add: min_normal_double_def)
    also have "\<dots> \<le> sum_s st" using a by (simp add: two_powi_threshold mult.commute)
    finally have "min_normal_double \<le> ?q" using npos by (simp add: pos_le_divide_eq)
    with q0 have "2 powi (- int emin_double) \<le> \<bar>?q\<bar>"
      unfolding min_normal_double_def by linarith
    then show ?thesis by (rule disjI2)
  qed
  from round_double_error [OF qn] q0
  have "\<bar>round_double ?q - ?q\<bar> \<le> ?q * eps_double" by (simp add: eps_double_def)
  then have r: "?lo * ?q \<le> round_double ?q" "round_double ?q \<le> ?hi * ?q"
    by (rule rel_error_bounds)+
  have "Min (set ?ds) * ?lo ^ (?n + 1) \<le> (sum_list ?ds / real ?n) * ?lo ^ (?n + 1)"
    using mean(1) lo by (intro mult_right_mono) simp_all
  also have "\<dots> = ?lo * (?lo ^ ?n * sum_list ?ds / real ?n)" by simp
  also have "\<dots> \<le> ?lo * ?q"
    using sums(1) lo npos by (intro mult_left_mono divide_right_mono) simp_all
  also have "\<dots> \<le> round_double ?q" by (rule r(1))
  finally have lower: "Min (set ?ds) * ?lo ^ (?n + 1) \<le> round_double ?q" .
  have "round_double ?q \<le> ?hi * ?q" by (rule r(2))
  also have "\<dots> \<le> ?hi * (?hi ^ ?n * sum_list ?ds / real ?n)"
    using sums(2) hi npos by (intro mult_left_mono divide_right_mono) simp_all
  also have "\<dots> = (sum_list ?ds / real ?n) * ?hi ^ (?n + 1)" by simp
  also have "\<dots> \<le> Max (set ?ds) * ?hi ^ (?n + 1)"
    using mean(2) hi by (intro mult_right_mono) simp_all
  finally have upper: "round_double ?q \<le> Max (set ?ds) * ?hi ^ (?n + 1)" .
  have "Min (set ?ds) \<le> Max (set ?ds)" using mean by linarith
  with lower upper avg rep assms(3) n mn mx st show ?thesis by simp
qed

theorem reported_avg_within_rounding_witness:
  "now_monotonic three_equal_runs = Ret 0 (tl three_equal_runs) \<and>
   measurement_double 0 8 three_equal_runs =
     Exit 0 (Some \<lparr>rep_min = d0, rep_avg = 6385709080744061 / 2 ^ 51, rep_max = d0,
                   rep_total = 9, rep_runs = 3, rep_fails = 0, rep_warmups = 0\<rparr>) [] \<and>
   (0::int) < 3 \<and> (3::int) < 2 ^ 53 \<and>
   map recorded (measured_runs 0 8 (tl three_equal_runs)) = [d0, d0, d0] \<and>
   2 ^ 53 * min_normal_double \<le> d0 \<and>
   d0 * (1 - eps_double) ^ 4 \<le> 6385709080744061 / 2 ^ 51 \<and>
   6385709080744061 / 2 ^ 51 \<le> d0 * (1 + eps_double) ^ 4"
proof -
  let ?rep = "\<lparr>rep_min = d0, rep_avg = 6385709080744061 / 2 ^ 51, rep_max = d0,
                   rep_total = 9, rep_runs = 3, rep_fails = 0, rep_warmups = 0\<rparr>"
  have a: "now_monotonic three_equal_runs = Ret 0 (tl three_equal_runs)"
    by (simp add: three_equal_runs_def)
  have q: "round_double (4789281810558046 / 2 ^ 49 / round_double 3)
      = 6385709080744061 / 2 ^ 51"
    using round_d0_4 by simp
  have b: "measurement_double 0 8 three_equal_runs = Exit 0 (Some ?rep) []"
    using a three_equal_runs_timed q
    by (simp add: measurement_double_def EXIT_SUCCESS_def)
  have c: "0 < rep_runs ?rep" and d: "rep_runs ?rep < 2 ^ 53" by simp_all
  have e: "\<forall>r \<in> set (measured_runs 0 8 (tl three_equal_runs)).
             recorded r = 0 \<or> 2 ^ 53 * min_normal_double \<le> recorded r"
    using d0_normal by (simp add: three_equal_runs_measured)
  from reported_avg_within_rounding [OF a b c d e] a b d0_normal
  show ?thesis by (simp add: three_equal_runs_measured eval_nat_numeral)
qed

text \<open>
  C3. When the timed loop ends, the system calls it has made have the shape \<open>gated\<close>:
  each run comes after a check that read the clock less than \<open>duration\<close> after
  \<open>total_start\<close>, and the loop ends at the first check that reads more, without
  another call. The run count has grown by the number of \<open>fork\<close> calls: each run that
  was started is counted, however late its own readings are. And a check that finds the
  budget used always ends the loop at once.
\<close>

theorem timed_loop_gated:
  assumes "timed_loop total_start duration st w = Ret st' w'"
  shows "(\<exists>es. w = es @ w' \<and> gated total_start duration es \<and>
               runs st' = runs st + int (length (filter is_fork es))) \<and>
         (\<forall>c w0. duration \<le> c - total_start \<longrightarrow>
               timed_loop total_start duration st (Clock (Some c) # w0) = Ret st w0)"
proof
  show "\<forall>c w0. duration \<le> c - total_start \<longrightarrow>
               timed_loop total_start duration st (Clock (Some c) # w0) = Ret st w0"
    by (simp add: timed_loop.simps)
  from assms show "\<exists>es. w = es @ w' \<and> gated total_start duration es \<and>
               runs st' = runs st + int (length (filter is_fork es))"
  proof (induction total_start duration st w rule: timed_loop.induct)
    case (1 total_start duration st w)
    from "1.prems" obtain c w1 where c: "now_monotonic w = Ret c w1"
      by (auto simp: timed_loop.simps [of _ _ _ w] split: step.splits)
    then have w: "w = Clock (Some c) # w1" by (simp add: now_monotonic_Ret)
    show ?case
    proof (cases "duration \<le> c - total_start")
      case True
      with c "1.prems" have "st' = st" "w' = w1"
        by (simp_all add: timed_loop_stop)
      with w True show ?thesis
        by (intro exI [of _ "[Clock (Some c)]"]) simp
    next
      case False
      with c "1.prems" obtain r w2 where r: "run_once w1 = Ret r w2"
        by (auto simp: timed_loop.simps [of _ _ _ w] split: step.splits)
      from c False r "1.prems"
      have loop: "timed_loop total_start duration
          (update_stats st (fst r) (secs_after (snd r))) w2 = Ret st' w'"
        by (simp add: timed_loop.simps [of _ _ _ w])
      from "1.IH" [OF c refl _ r loop] False obtain es2 where
        es2: "w2 = es2 @ w'" "gated total_start duration es2"
          "runs st' = runs (update_stats st (fst r) (secs_after (snd r)))
             + int (length (filter is_fork es2))"
        by auto
      from run_once_consumes [OF r] obtain es1 where
        es1: "w1 = es1 @ w2" "length (filter is_fork es1) = 1"
          "\<forall>rest. run_events (es1 @ rest) = Some rest"
        by blast
      have "gated total_start duration (Clock (Some c) # es1 @ es2)"
        using False es1(3) es2(2) by (rule gated_step)
      moreover have "w = (Clock (Some c) # es1 @ es2) @ w'"
        using w es1(1) es2(1) by simp
      moreover have "runs st' = runs st
          + int (length (filter is_fork (Clock (Some c) # es1 @ es2)))"
        using es2(3) es1(2) by (simp add: update_stats_def)
      ultimately show ?thesis by blast
    qed
  qed
qed

theorem timed_loop_gated_witness:
  "timed_loop 10 2 stats0 (tl two_runs) =
     Ret \<lparr>min_s = 1, max_s = 3, sum_s = 4, runs = 2, fails = 1\<rparr> [Clock (Some 14)] \<and>
   (\<exists>es. tl two_runs = es @ [Clock (Some 14)] \<and> gated 10 2 es \<and>
         (2::int) = 0 + int (length (filter is_fork es))) \<and>
   gated 10 2 (butlast (tl two_runs)) \<and>
   length (filter is_fork (butlast (tl two_runs))) = 2 \<and>
   (2::real) \<le> 14 - 10 \<and>
   timed_loop 10 2 stats0 [Clock (Some 14), Clock (Some 14)] = Ret stats0 [Clock (Some 14)]"
proof -
  have "gated 10 2 (butlast (tl two_runs))"
    by (simp add: two_runs_def)
  moreover have "length (filter is_fork (butlast (tl two_runs))) = 2"
    by (simp add: two_runs_def)
  ultimately show ?thesis
    using timed_loop_gated [OF two_runs_timed] two_runs_timed
    by (simp add: stats0_def)
qed

text \<open>
  C4. With valid options and a command, when the warmup loop returns it has made the
  calls of exactly \<open>warmups\<close> runs (\<open>warmups\<close> calls of \<open>fork\<close>) and nothing
  else, all before the reading of \<open>total_start\<close>, which is the next call. What the
  program then does and reports is what it does and reports without warmup on the world
  that the warmup runs have left, but for the warmup count that the report repeats:
  exit status, minimum, average, maximum, total, run count and failure count are the
  same.
\<close>

theorem warmup_frame:
  assumes "getopt_loop opts 0 5 = Some (warmups, duration)" and "cmd \<noteq> []"
      and "warmup_loop 0 warmups w = Ret u w1"
  shows "(\<exists>es. w = es @ w1 \<and> n_runs (nat warmups) es \<and>
               length (filter is_fork es) = nat warmups) \<and>
         main opts cmd w = set_warmups warmups (main [OptD duration] cmd w1)"
proof -
  from assms(1) have valid: "0 \<le> warmups \<and> 0 < duration"
    by (rule getopt_loop_valid) simp_all
  then have g: "getopt_loop [OptD duration] 0 5 = Some (0, duration)" by simp
  have l: "warmup_loop 0 0 w1 = Ret () w1" by (simp add: warmup_loop.simps)
  from g assms(2) l have "main [OptD duration] cmd w1 = measurement 0 duration w1"
    by (rule main_valid)
  moreover have "main opts cmd w = measurement warmups duration w1"
    using assms by (rule main_valid)
  ultimately have "main opts cmd w = set_warmups warmups (main [OptD duration] cmd w1)"
    by (simp add: measurement_warmups [of warmups])
  with warmup_loop_consumes [OF assms(3)] show ?thesis by simp
qed

theorem warmup_frame_witness:
  "getopt_loop [OptW 2, OptD 2] 0 5 = Some (2, 2) \<and> [''true''] \<noteq> [] \<and>
   warmup_loop 0 2 warmed_up = Ret () two_runs \<and>
   (\<exists>es. warmed_up = es @ two_runs \<and> n_runs (nat 2) es \<and>
         length (filter is_fork es) = nat 2) \<and>
   main [OptD 2] [''true''] two_runs =
     Exit 1 (Some \<lparr>rep_min = 1, rep_avg = 2, rep_max = 3, rep_total = 4,
                   rep_runs = 2, rep_fails = 1, rep_warmups = 0\<rparr>) [] \<and>
   main [OptW 2, OptD 2] [''true''] warmed_up =
     Exit 1 (Some \<lparr>rep_min = 1, rep_avg = 2, rep_max = 3, rep_total = 4,
                   rep_runs = 2, rep_fails = 1, rep_warmups = 2\<rparr>) []"
proof -
  have a: "getopt_loop [OptW 2, OptD 2] 0 5 = Some (2, 2)" by simp
  have b: "[''true''] \<noteq> []" by simp
  have c: "warmup_loop 0 2 warmed_up = Ret () two_runs"
    by (simp add: warmed_up_def warmup_loop.simps run_once_def)
  have d: "main [OptD 2] [''true''] two_runs =
     Exit 1 (Some \<lparr>rep_min = 1, rep_avg = 2, rep_max = 3, rep_total = 4,
                   rep_runs = 2, rep_fails = 1, rep_warmups = 0\<rparr>) []"
    using two_runs_measurement by (simp add: main_def warmup_loop.simps)
  from warmup_frame [OF a b c] a c d show ?thesis by simp
qed



text \<open>
  C6, as stated, fails for a run in which \<open>fork\<close> or \<open>waitpid\<close> fails:
  \<open>run_once\<close> returns before line 92, and the run is counted with the \<open>0.0\<close> of
  line 171. In \<open>lost_wait\<close> the only run lies between the readings 0 and 7 of the
  clock; the report has one run, one failure, a total of 7 s, and 0 as minimum, average
  and maximum.
\<close>

theorem system_failure_counts_zero_seconds:
  "main [] [''cmd''] lost_wait =
     Exit 1 (Some \<lparr>rep_min = 0, rep_avg = 0, rep_max = 0, rep_total = 7,
                   rep_runs = 1, rep_fails = 1, rep_warmups = 0\<rparr>) [] \<and>
   measured_runs 0 5 (tl lost_wait) = [(- 1, None)]"
  by (simp add: lost_wait_def main_def measurement_def warmup_loop.simps timed_loop.simps
      measured_runs.simps run_once_def stats0_def update_stats_def EXIT_FAILURE_def)

text \<open>
  C6, amended. Every run of the timed loop adds one to the run count and folds a
  duration that is not negative into minimum, maximum and sum: for a run whose child was
  reaped, successful or not, the time \<open>t1 - t0\<close> between its two readings of the clock
  (which is monotonic); for a run in which \<open>fork\<close> or \<open>waitpid\<close> failed, zero. The
  failure count grows by one exactly when the run is not a success. A run that returns
  is of one of these three kinds.
\<close>

theorem counted_run_contribution:
  assumes "c - total_start < duration" and "t0 \<le> t1"
  shows "timed_loop total_start duration st (Clock (Some c) # completed t0 ch k t1 @ w) =
           timed_loop total_start duration
             \<lparr>min_s = (if runs st = 0 then t1 - t0 else min (min_s st) (t1 - t0)),
              max_s = (if runs st = 0 then t1 - t0 else max (max_s st) (t1 - t0)),
              sum_s = sum_s st + (t1 - t0),
              runs = runs st + 1,
              fails = (if child_branch ch = Exited 0 then fails st else fails st + 1)\<rparr> w \<and>
         0 \<le> t1 - t0 \<and>
         timed_loop total_start duration st (Clock (Some c) # fork_failed t0 @ w) =
           timed_loop total_start duration
             \<lparr>min_s = (if runs st = 0 then 0 else min (min_s st) 0),
              max_s = (if runs st = 0 then 0 else max (max_s st) 0),
              sum_s = sum_s st + 0,
              runs = runs st + 1,
              fails = fails st + 1\<rparr> w \<and>
         timed_loop total_start duration st (Clock (Some c) # wait_failed t0 ch k @ w) =
           timed_loop total_start duration
             \<lparr>min_s = (if runs st = 0 then 0 else min (min_s st) 0),
              max_s = (if runs st = 0 then 0 else max (max_s st) 0),
              sum_s = sum_s st + 0,
              runs = runs st + 1,
              fails = fails st + 1\<rparr> w \<and>
         (\<forall>w0 r w1. run_once w0 = Ret r w1 \<longrightarrow>
            (\<exists>t0. w0 = fork_failed t0 @ w1) \<or>
            (\<exists>t0 ch k. w0 = wait_failed t0 ch k @ w1) \<or>
            (\<exists>t0 ch k t1. w0 = completed t0 ch k t1 @ w1))"
proof -
  have shapes: "\<forall>w0 r w1. run_once w0 = Ret r w1 \<longrightarrow>
            (\<exists>t0. w0 = fork_failed t0 @ w1) \<or>
            (\<exists>t0 ch k. w0 = wait_failed t0 ch k @ w1) \<or>
            (\<exists>t0 ch k t1. w0 = completed t0 ch k t1 @ w1)"
    using run_once_Ret by blast
  have check: "now_monotonic (Clock (Some c) # es) = Ret c es" for es by simp
  have "timed_loop total_start duration st (Clock (Some c) # completed t0 ch k t1 @ w) =
      timed_loop total_start duration
        (fold_run st (if child_branch ch = Exited 0 then 0 else 1, Some (t1 - t0))) w"
    using check assms(1) run_once_completed by (rule timed_loop_step)
  moreover have "timed_loop total_start duration st (Clock (Some c) # fork_failed t0 @ w) =
      timed_loop total_start duration (fold_run st (- 1, None)) w"
    using check assms(1) run_once_fork_failed by (rule timed_loop_step)
  moreover have "timed_loop total_start duration st (Clock (Some c) # wait_failed t0 ch k @ w) =
      timed_loop total_start duration (fold_run st (- 1, None)) w"
    using check assms(1) run_once_wait_failed by (rule timed_loop_step)
  ultimately show ?thesis
    using assms(2) shapes by (simp add: update_stats_def min_def max_def)
qed

theorem counted_run_contribution_witness:
  "(10::real) - 10 < 2 \<and> (10::real) \<le> 11 \<and>
   timed_loop 10 2 stats0 (Clock (Some 10) # completed 10 (Runs (Exited 0)) 0 11 @ drop 6 two_runs) =
     timed_loop 10 2 \<lparr>min_s = 1, max_s = 1, sum_s = 1, runs = 1, fails = 0\<rparr> (drop 6 two_runs) \<and>
   Clock (Some 10) # completed 10 (Runs (Exited 0)) 0 11 @ drop 6 two_runs = tl two_runs \<and>
   timed_loop 10 2 stats0 (tl two_runs) =
     Ret \<lparr>min_s = 1, max_s = 3, sum_s = 4, runs = 2, fails = 1\<rparr> [Clock (Some 14)] \<and>
   timed_loop 10 2 stats0 (Clock (Some 10) # fork_failed 10 @ [Clock (Some 13)]) =
     Ret \<lparr>min_s = 0, max_s = 0, sum_s = 0, runs = 1, fails = 1\<rparr> [] \<and>
   timed_loop 10 2 stats0
       (Clock (Some 10) # wait_failed 10 ExecFails 1 @ [Clock (Some 13)]) =
     Ret \<lparr>min_s = 0, max_s = 0, sum_s = 0, runs = 1, fails = 1\<rparr> []"
proof -
  have a: "(10::real) - 10 < 2" by simp
  have b: "(10::real) \<le> 11" by simp
  have stop: "timed_loop 10 2 st [Clock (Some 13)] = Ret st []" for st
    by (simp add: timed_loop.simps)
  have shape: "Clock (Some 10) # completed 10 (Runs (Exited 0)) 0 11 @ drop 6 two_runs
      = tl two_runs"
    by (simp add: two_runs_def completed_def)
  from counted_run_contribution [OF a b, of stats0 "Runs (Exited 0)" 0 "drop 6 two_runs"]
    counted_run_contribution [OF a b, of stats0 ExecFails 1 "[Clock (Some 13)]"]
    two_runs_timed shape
  show ?thesis by (simp add: stats0_def stop)
qed

text \<open>
  C7. The failure count starts at 0 with the run count. Each update of the statistics
  adds one to the run count and zero or one to the failure count, so it keeps
  \<open>0 \<le> fails \<le> runs\<close>; and so does the timed loop, from any state that it may
  have reached to the state it ends with.
\<close>

theorem fail_count_invariant:
  "fails stats0 = 0 \<and> runs stats0 = 0 \<and>
   (0 \<le> fails st \<and> fails st \<le> runs st \<longrightarrow>
      0 \<le> fails (update_stats st rc secs) \<and>
      fails (update_stats st rc secs) \<le> runs (update_stats st rc secs) \<and>
      runs (update_stats st rc secs) = runs st + 1 \<and>
      fails (update_stats st rc secs) = fails st + (if rc \<noteq> 0 then 1 else 0)) \<and>
   (0 \<le> fails st \<and> fails st \<le> runs st \<and>
    timed_loop total_start duration st w = Ret st' w' \<longrightarrow>
      0 \<le> fails st' \<and> fails st' \<le> runs st')"
proof -
  have "fails stats0 = 0 \<and> runs stats0 = 0" by (simp add: stats0_def)
  moreover have "0 \<le> fails st \<and> fails st \<le> runs st \<longrightarrow>
      0 \<le> fails (update_stats st rc secs) \<and>
      fails (update_stats st rc secs) \<le> runs (update_stats st rc secs) \<and>
      runs (update_stats st rc secs) = runs st + 1 \<and>
      fails (update_stats st rc secs) = fails st + (if rc \<noteq> 0 then 1 else 0)"
    by (simp add: update_stats_def)
  moreover have "0 \<le> fails st \<and> fails st \<le> runs st \<and>
    timed_loop total_start duration st w = Ret st' w' \<longrightarrow>
      0 \<le> fails st' \<and> fails st' \<le> runs st'"
  proof
    assume a: "0 \<le> fails st \<and> fails st \<le> runs st \<and>
      timed_loop total_start duration st w = Ret st' w'"
    let ?rs = "measured_runs total_start duration w"
    from a have st': "st' = foldl fold_run st ?rs" by (simp add: timed_loop_fold)
    have "int (length (filter failed ?rs)) \<le> int (length ?rs)" by simp
    moreover from a have "0 \<le> fails st" and "fails st \<le> runs st" by simp_all
    ultimately show "0 \<le> fails st' \<and> fails st' \<le> runs st'"
      unfolding st' foldl_fails foldl_runs by linarith
  qed
  ultimately show ?thesis by blast
qed

theorem fail_count_invariant_witness:
  "fails stats0 = 0 \<and> runs stats0 = 0 \<and>
   0 \<le> fails stats0 \<and> fails stats0 \<le> runs stats0 \<and>
   update_stats stats0 1 3 = \<lparr>min_s = 3, max_s = 3, sum_s = 3, runs = 1, fails = 1\<rparr> \<and>
   timed_loop 10 2 stats0 (tl two_runs) =
     Ret \<lparr>min_s = 1, max_s = 3, sum_s = 4, runs = 2, fails = 1\<rparr> [Clock (Some 14)] \<and>
   (0::int) \<le> 1 \<and> (1::int) \<le> 2"
  using fail_count_invariant [of stats0 1 3 10 2 "tl two_runs"
      "\<lparr>min_s = 1, max_s = 3, sum_s = 4, runs = 2, fails = 1\<rparr>" "[Clock (Some 14)]"]
    two_runs_timed
  by (simp add: stats0_def update_stats_def)



text \<open>
  C9. A negative warmup count, a duration that is not positive, an unknown option or a
  missing command ends the program with \<open>EXIT_FAILURE\<close>, which is not zero, without
  a report and with the world untouched: no system call was made, no child created.
\<close>

theorem invalid_configuration_rejected:
  assumes "(\<exists>n. OptW n \<in> set opts \<and> n < 0) \<or> (\<exists>x. OptD x \<in> set opts \<and> x \<le> 0) \<or>
           OptOther \<in> set opts \<or> cmd = []"
  shows "main opts cmd w = Exit EXIT_FAILURE None w \<and> EXIT_FAILURE \<noteq> 0"
proof (cases "\<exists>p \<in> set opts. invalid p")
  case True
  then have "getopt_loop opts 0 5 = None" by (simp add: getopt_loop_None)
  then show ?thesis by (simp add: main_def EXIT_FAILURE_def)
next
  case False
  then have "\<not> (\<exists>n. OptW n \<in> set opts \<and> n < 0)" "\<not> (\<exists>x. OptD x \<in> set opts \<and> x \<le> 0)"
    "OptOther \<notin> set opts"
    by force+
  with assms have "cmd = []" by blast
  then show ?thesis
    by (simp add: main_def EXIT_FAILURE_def split: option.splits)
qed

theorem invalid_configuration_rejected_witness:
  "OptD 0 \<in> set [OptW 3, OptD 0] \<and> (0::real) \<le> 0 \<and>
   main [OptW 3, OptD 0] [''sleep'', ''1''] warmed_up = Exit 1 None warmed_up \<and>
   main [OptW (- 1)] [''sleep'', ''1''] warmed_up = Exit 1 None warmed_up \<and>
   main [OptW 3, OptD 2] [] warmed_up = Exit 1 None warmed_up \<and>
   EXIT_FAILURE \<noteq> 0"
  using invalid_configuration_rejected [of "[OptW 3, OptD 0]" "[''sleep'', ''1'']" warmed_up]
    invalid_configuration_rejected [of "[OptW (- 1)]" "[''sleep'', ''1'']" warmed_up]
    invalid_configuration_rejected [of "[OptW 3, OptD 2]" "[]" warmed_up]
  by (simp add: EXIT_FAILURE_def)

section \<open>The claim about repeat.c\<close>

text \<open>
  C10. With options that \<open>getopt\<close> accepts and a message, repeat.c exits with 0 and
  has written \<open>max(r, 0)\<close> copies of the message, where \<open>r\<close> is the value of the
  last \<open>-r\<close> and 1 without one; each copy is followed by a newline unless \<open>-n\<close> was
  given. With \<open>r \<le> 0\<close> it has written nothing. Without a message it exits with 1
  and has written nothing to the standard output.
\<close>

theorem repeat_prints_copies:
  assumes "OptUnknown \<notin> set opts"
  shows "repeat_main opts (msg # rest) =
           (0, concat (replicate (nat (max (repeat_count opts 1) 0))
                 (msg @ (if OptN \<in> set opts then [] else [CHR 0x0A])))) \<and>
         (repeat_count opts 1 \<le> 0 \<longrightarrow> repeat_main opts (msg # rest) = (0, [])) \<and>
         repeat_main opts [] = (1, [])"
proof -
  have "nat (max (repeat_count opts 1) 0) = nat (repeat_count opts 1)" by simp
  with assms show ?thesis
    by (simp add: repeat_main_def repeat_getopt_loop_Some print_loop_replicate)
qed

theorem repeat_prints_copies_witness:
  "OptUnknown \<notin> set [OptR 2] \<and>
   repeat_main [OptR 2] [''hi'', ''there''] = (0, [CHR ''h'', CHR ''i'', CHR 0x0A, CHR ''h'', CHR ''i'', CHR 0x0A]) \<and>
   repeat_main [OptN, OptR 3, OptR 2] [''hi''] = (0, ''hihi'') \<and>
   repeat_main [] [''hi''] = (0, [CHR ''h'', CHR ''i'', CHR 0x0A]) \<and>
   repeat_main [OptR (- 4)] [''hi''] = (0, []) \<and>
   repeat_main [OptR 2] [] = (1, [])"
  using repeat_prints_copies [of "[OptR 2]" "''hi''" "[''there'']"]
    repeat_prints_copies [of "[OptN, OptR 3, OptR 2]" "''hi''" "[]"]
    repeat_prints_copies [of "[]" "''hi''" "[]"]
    repeat_prints_copies [of "[OptR (- 4)]" "''hi''" "[]"]
  by (simp add: numeral_2_eq_2)

end
